theory Spec2Isabelle
  imports Complex_Main "HOL-Library.Multiset" "HOL-Library.Sublist"
begin

section \<open>Data model\<close>

text \<open>
  The C++ \<^verbatim>\<open>float\<close> coordinates are idealised as real numbers; every concrete
  input used below consists of small integers, which \<^verbatim>\<open>float\<close> represents exactly.
  The C++ \<^verbatim>\<open>int level\<close> is an unbounded integer: it grows by one per recursion level
  and the call stack is exhausted long before it could wrap.
\<close>

datatype Point = Point (point_x: real) (point_y: real)

text \<open>
  A widget as \<^verbatim>\<open>WidgetView\<close> sees it (\<^verbatim>\<open>widget.h\<close>). The field \<open>wid\<close> stands for the
  object's address (the identity of the \<^verbatim>\<open>Widget*\<close>). \<open>IsHidden\<close>, \<open>GetX\<close>, \<open>GetY\<close>,
  \<open>GetWidth\<close>, \<open>GetHeight\<close> and \<open>scale\<close> are the values returned by the accessors of the
  same name, whose bodies are not part of the sources at hand. \<open>Widget_ShouldHandleEvent\<close>
  is the virtual method \<^verbatim>\<open>Widget::ShouldHandleEvent(location)\<close> of the object, and
  \<open>children\<close> is \<^verbatim>\<open>children_\<close>, in insertion order.
\<close>

datatype Widget = Widget
  (wid: nat)
  (IsHidden: bool)
  (GetX: real)
  (GetY: real)
  (GetWidth: real)
  (GetHeight: real)
  (scale: real)
  (Widget_ShouldHandleEvent: "Point \<Rightarrow> bool")
  (children: "Widget list")

text \<open>
  \<^verbatim>\<open>struct WidgetItem\<close>, in the order of the aggregate initialiser in
  \<^verbatim>\<open>PopulateWidgetList\<close>. Items are never modified after they are created, so the
  pointer \<^verbatim>\<open>parent_item\<close> is modelled by the item it points to (\<open>None\<close> is
  \<^verbatim>\<open>nullptr\<close>).
\<close>

datatype WidgetItem = WidgetItem
  (widget: Widget)
  (origin: Point)
  (width: real)
  (height: real)
  (level: int)
  (parent_item: "WidgetItem option")
  (item_scale: real)
  (translated_origin: Point)
  (scissor_origin: Point)
  (scissor_width: real)
  (scissor_height: real)

text \<open>The bounds of the widget view, as returned by its \<^verbatim>\<open>GetWidth()\<close> and \<^verbatim>\<open>GetHeight()\<close>.\<close>

record WidgetView =
  view_width :: real
  view_height :: real

section \<open>The visibility and clip planner: \<^verbatim>\<open>WidgetView::PopulateWidgetList\<close>\<close>

text \<open>
  The part of \<^verbatim>\<open>PopulateWidgetList\<close> that runs when \<^verbatim>\<open>parent_item != nullptr\<close>
  (\<^verbatim>\<open>widget_view.cc\<close>, lines 99 to 134). The result is \<open>None\<close> at each early
  \<^verbatim>\<open>return\<close>, and otherwise the translated origin, the scissor origin, the scissor width
  and the scissor height.
\<close>

definition clip_to_parent ::
  "WidgetView \<Rightarrow> real \<Rightarrow> Widget \<Rightarrow> WidgetItem \<Rightarrow> (Point \<times> Point \<times> real \<times> real) option" where
  "clip_to_parent view scale_in w parent =
    (let kWidgetX = GetX w;
         kWidgetY = GetY w;
         kScaledWidgetWidth = GetWidth w * scale_in * scale w;
         kScaledWidgetHeight = GetHeight w * scale_in * scale w;
         translated_x = point_x (translated_origin parent) + kWidgetX * scale_in;
         translated_y = point_y (translated_origin parent) + kWidgetY * scale_in;
         scissor_x = max (point_x (scissor_origin parent)) translated_x
     in if scissor_x \<ge> view_width view then None else
        let scissor_y = max (point_y (scissor_origin parent)) translated_y
        in if scissor_y \<ge> view_height view then None else
           if translated_x + kScaledWidgetWidth - 1 < scissor_x \<or>
              translated_y + kScaledWidgetHeight - 1 < scissor_y then None else
           let kParentOriginX = point_x (scissor_origin parent);
               scissor_width1 = min kScaledWidgetWidth
                                  (kParentOriginX + scissor_width parent - scissor_x);
               scissor_width2 = min scissor_width1
                                  (scissor_x + kScaledWidgetWidth - kParentOriginX)
           in if scissor_width2 \<le> 0 \<or> scissor_x + scissor_width2 - 1 < 0 then None else
              let kParentOriginY = point_y (scissor_origin parent);
                  scissor_height1 = min kScaledWidgetHeight
                                      (kParentOriginY + scissor_height parent - scissor_y);
                  scissor_height2 = min scissor_height1
                                      (scissor_y + kScaledWidgetHeight - kParentOriginY)
              in if scissor_height2 \<le> 0 \<or> scissor_y + scissor_height2 - 1 < 0 then None else
                 Some (Point translated_x translated_y, Point scissor_x scissor_y,
                       scissor_width2, scissor_height2))"

text \<open>
  Lines 84 to 134 for one widget: \<open>None\<close> when the function returns before creating an
  item, otherwise the geometry the new item is created with.
\<close>

definition item_geometry ::
  "WidgetView \<Rightarrow> real \<Rightarrow> Widget \<Rightarrow> WidgetItem option \<Rightarrow> (Point \<times> Point \<times> real \<times> real) option" where
  "item_geometry view scale_in w parent =
    (if IsHidden w then None
     else if GetWidth w \<le> 0 then None
     else if GetHeight w \<le> 0 then None
     else case parent of
            None \<Rightarrow> Some (Point 0 0, Point 0 0,
                          GetWidth w * scale_in * scale w, GetHeight w * scale_in * scale w)
          | Some p \<Rightarrow> clip_to_parent view scale_in w p)"

text \<open>Lines 137 to 140: the item created for a visible widget.\<close>

definition new_item ::
  "int \<Rightarrow> Widget \<Rightarrow> WidgetItem option \<Rightarrow> Point \<times> Point \<times> real \<times> real \<Rightarrow> WidgetItem" where
  "new_item lv w parent g =
    (case g of (t_origin, s_origin, s_width, s_height) \<Rightarrow>
       WidgetItem w (Point (GetX w) (GetY w)) (GetWidth w) (GetHeight w) lv parent (scale w)
                  t_origin s_origin s_width s_height)"

text \<open>
  \<^verbatim>\<open>PopulateWidgetList(level, scale, widget_list, widget, parent_item)\<close>. The function
  only appends to \<^verbatim>\<open>widget_list\<close>; the model returns the items one call appends, in the
  order in which they are appended (an early \<^verbatim>\<open>return\<close> appends nothing).
\<close>

fun PopulateWidgetList ::
  "WidgetView \<Rightarrow> int \<Rightarrow> real \<Rightarrow> Widget \<Rightarrow> WidgetItem option \<Rightarrow> WidgetItem list" where
  "PopulateWidgetList view lv scale_in (Widget i hid x y w h s ev chs) parent =
    (case item_geometry view scale_in (Widget i hid x y w h s ev chs) parent of
       None \<Rightarrow> []
     | Some g \<Rightarrow>
         (let item = new_item lv (Widget i hid x y w h s ev chs) parent g;
              kChildWidgetScale = scale_in * s
          in item # concat (map (\<lambda>child. PopulateWidgetList view (lv + 1) kChildWidgetScale
                                            child (Some item)) chs)))"

text \<open>The call made by \<^verbatim>\<open>Render\<close>: \<^verbatim>\<open>PopulateWidgetList(0, 1, &widget_list, root_widget_, nullptr)\<close>.\<close>

definition plan :: "WidgetView \<Rightarrow> Widget \<Rightarrow> WidgetItem list" where
  "plan view root_widget = PopulateWidgetList view 0 1 root_widget None"

text \<open>
  The pre-order walk of the source tree, and the same walk with the depth of every node
  (the node the walk starts from has the depth given). They are the yardstick the
  planner's output is measured against.
\<close>

fun preorder :: "Widget \<Rightarrow> Widget list" where
  "preorder (Widget i hid x y w h s ev chs) =
     Widget i hid x y w h s ev chs # concat (map preorder chs)"

fun preorder_depth :: "int \<Rightarrow> Widget \<Rightarrow> (Widget \<times> int) list" where
  "preorder_depth d (Widget i hid x y w h s ev chs) =
     (Widget i hid x y w h s ev chs, d) # concat (map (preorder_depth (d + 1)) chs)"

text \<open>
  The intersection of two rectangles given by origin, width and height: the yardstick for
  the scissor rectangle.
\<close>

definition rect_intersection ::
  "Point \<times> real \<times> real \<Rightarrow> Point \<times> real \<times> real \<Rightarrow> Point \<times> real \<times> real" where
  "rect_intersection a b =
    (case a of (ao, aw, ah) \<Rightarrow> case b of (bo, bw, bh) \<Rightarrow>
       (let left = max (point_x ao) (point_x bo);
            top = max (point_y ao) (point_y bo);
            right = min (point_x ao + aw) (point_x bo + bw);
            bottom = min (point_y ao + ah) (point_y bo + bh)
        in (Point left top, right - left, bottom - top)))"

definition rect_empty :: "Point \<times> real \<times> real \<Rightarrow> bool" where
  "rect_empty r = (case r of (ro, rw, rh) \<Rightarrow> rw \<le> 0 \<or> rh \<le> 0)"

definition item_scissor :: "WidgetItem \<Rightarrow> Point \<times> real \<times> real" where
  "item_scissor item = (scissor_origin item, scissor_width item, scissor_height item)"

text \<open>
  The node's own scaled bounding rectangle: its translated origin and its size scaled by
  the inherited scale times its own scale.
\<close>

definition scaled_bounds :: "real \<Rightarrow> Widget \<Rightarrow> WidgetItem \<Rightarrow> Point \<times> real \<times> real" where
  "scaled_bounds scale_in w parent =
    (Point (point_x (translated_origin parent) + GetX w * scale_in)
           (point_y (translated_origin parent) + GetY w * scale_in),
     GetWidth w * scale_in * scale w, GetHeight w * scale_in * scale w)"

section \<open>The render executor: \<^verbatim>\<open>WidgetView::Render\<close>\<close>

text \<open>
  The calls \<^verbatim>\<open>Render\<close> makes on the drawing context, on the view's own hooks and on the
  widgets' virtual methods, in the order in which they are made. The hooks of
  \<^verbatim>\<open>widget.h\<close> have empty default bodies; they are recorded and do not change the tree.
\<close>

datatype Call =
    nvgCreateGL
  | Widget_UpdateContext Widget
  | ContextDidCreate
  | ViewWillRender
  | ViewDidRender
  | Widget_WidgetViewWillRender Widget
  | Widget_WidgetViewDidRender Widget
  | Widget_RenderDefaultFramebuffer Widget
  | glViewport int int int int
  | glClearColor
  | glClear
  | glBlendFunc
  | nvgBeginFrame real real real
  | nvgEndFrame
  | nvgSave
  | nvgRestore
  | nvgTranslate real real
  | nvgScale real real
  | nvgIntersectScissor real real real real
  | Widget_WidgetWillRender Widget
  | Widget_RenderOnDemand Widget
  | Widget_WidgetDidRender Widget
  | delete_WidgetItem WidgetItem

text \<open>
  \<^verbatim>\<open>PopAndFinalizeWidgetItems(level, stack)\<close>: the stack is a list with its top first.
  The result is the stack that is left and the calls made.
\<close>

fun PopAndFinalizeWidgetItems :: "int \<Rightarrow> WidgetItem list \<Rightarrow> WidgetItem list \<times> Call list" where
  "PopAndFinalizeWidgetItems lv [] = ([], [])"
| "PopAndFinalizeWidgetItems lv (top_item # stack) =
    (if level top_item < lv then (top_item # stack, [])
     else (case PopAndFinalizeWidgetItems lv stack of (stack', calls) \<Rightarrow>
             (stack', [Widget_WidgetDidRender (widget top_item), delete_WidgetItem top_item,
                       nvgRestore] @ calls)))"

text \<open>One iteration of the loop of lines 173 to 184.\<close>

definition render_item :: "WidgetItem \<Rightarrow> WidgetItem list \<Rightarrow> WidgetItem list \<times> Call list" where
  "render_item item rendering_stack =
    (case PopAndFinalizeWidgetItems (level item) rendering_stack of (stack', calls) \<Rightarrow>
       (item # stack',
        calls @ [nvgSave,
                 nvgTranslate (point_x (origin item)) (point_y (origin item)),
                 nvgScale (item_scale item) (item_scale item),
                 nvgIntersectScissor 0 0 (width item) (height item),
                 Widget_WidgetWillRender (widget item),
                 nvgSave,
                 Widget_RenderOnDemand (widget item),
                 nvgRestore]))"

text \<open>The loop of lines 173 to 184 over the widget list, from a given rendering stack.\<close>

fun render_loop :: "WidgetItem list \<Rightarrow> WidgetItem list \<Rightarrow> WidgetItem list \<times> Call list" where
  "render_loop [] rendering_stack = (rendering_stack, [])"
| "render_loop (item # widget_list) rendering_stack =
    (case render_item item rendering_stack of (stack1, calls1) \<Rightarrow>
       case render_loop widget_list stack1 of (stack2, calls2) \<Rightarrow> (stack2, calls1 @ calls2))"

text \<open>
  Lines 172 to 185: the loop from the empty stack, then
  \<^verbatim>\<open>PopAndFinalizeWidgetItems(0, &rendering_stack)\<close>.
\<close>

definition render_items :: "WidgetItem list \<Rightarrow> WidgetItem list \<times> Call list" where
  "render_items widget_list =
    (case render_loop widget_list [] of (stack1, calls1) \<Rightarrow>
       case PopAndFinalizeWidgetItems 0 stack1 of (stack2, calls2) \<Rightarrow> (stack2, calls1 @ calls2))"

text \<open>
  \<^verbatim>\<open>WidgetView::WidgetViewDidRender(widget)\<close> and \<^verbatim>\<open>WidgetView::WidgetViewWillRender(widget)\<close>.
  The first argument is the address of \<^verbatim>\<open>root_widget_\<close>, for the test
  \<^verbatim>\<open>widget == root_widget_\<close>.
\<close>

fun WidgetViewDidRender :: "nat \<Rightarrow> Widget \<Rightarrow> Call list" where
  "WidgetViewDidRender root_wid (Widget i hid x y w h s ev chs) =
     [nvgSave,
      (if i = root_wid then ViewDidRender
       else Widget_WidgetViewDidRender (Widget i hid x y w h s ev chs)),
      nvgRestore]
     @ concat (map (WidgetViewDidRender root_wid) chs)"

fun WidgetViewWillRender :: "nat \<Rightarrow> Widget \<Rightarrow> Call list" where
  "WidgetViewWillRender root_wid (Widget i hid x y w h s ev chs) =
     [nvgSave,
      (if i = root_wid then ViewWillRender
       else Widget_WidgetViewWillRender (Widget i hid x y w h s ev chs)),
      nvgRestore]
     @ concat (map (WidgetViewWillRender root_wid) chs)"

text \<open>
  The conversion of a \<^verbatim>\<open>float\<close> to the integer parameters of \<^verbatim>\<open>glViewport\<close>
  (\<^verbatim>\<open>GLint\<close>, \<^verbatim>\<open>GLsizei\<close>): the fraction is dropped, towards zero.
\<close>

definition float_to_int :: "real \<Rightarrow> int" where
  "float_to_int v = (if 0 \<le> v then \<lfloor>v\<rfloor> else \<lceil>v\<rceil>)"

text \<open>
  \<^verbatim>\<open>WidgetView::Render()\<close>. \<open>has_context\<close> says whether \<^verbatim>\<open>context_\<close> is already
  created, \<open>kScreenScaleFactor\<close> is \<^verbatim>\<open>Device::GetScreenScaleFactor()\<close>.
\<close>

definition Render :: "WidgetView \<Rightarrow> bool \<Rightarrow> real \<Rightarrow> Widget \<Rightarrow> Call list" where
  "Render view has_context kScreenScaleFactor root_widget =
    (let widget_list = PopulateWidgetList view 0 1 root_widget None;
         kWidth = view_width view;
         kHeight = view_height view
     in (if has_context then []
         else [nvgCreateGL, Widget_UpdateContext root_widget, ContextDidCreate])
        @ WidgetViewWillRender (wid root_widget) root_widget
        @ map (\<lambda>item. Widget_RenderDefaultFramebuffer (widget item)) widget_list
        @ [glViewport 0 0 (float_to_int (kWidth * kScreenScaleFactor))
                          (float_to_int (kHeight * kScreenScaleFactor)),
           glClearColor, glClear, glBlendFunc,
           nvgBeginFrame kWidth kHeight kScreenScaleFactor]
        @ snd (render_items widget_list)
        @ [nvgEndFrame]
        @ WidgetViewDidRender (wid root_widget) root_widget)"

text \<open>
  What the trace says about finalisation: the widgets whose \<^verbatim>\<open>WidgetDidRender\<close> is
  called, in call order, and the items that are deleted, in order.
\<close>

fun did_render_order :: "Call list \<Rightarrow> Widget list" where
  "did_render_order [] = []"
| "did_render_order (Widget_WidgetDidRender w # calls) = w # did_render_order calls"
| "did_render_order (c # calls) = did_render_order calls"

fun finalized_items :: "Call list \<Rightarrow> WidgetItem list" where
  "finalized_items [] = []"
| "finalized_items (delete_WidgetItem item # calls) = item # finalized_items calls"
| "finalized_items (c # calls) = finalized_items calls"

text \<open>
  The stack discipline, read off a trace: \<^verbatim>\<open>WidgetWillRender\<close> opens a widget,
  \<^verbatim>\<open>WidgetDidRender\<close> has to close the widget opened last among those still open. The
  result is the list of widgets left open (most recent first), or \<open>None\<close> when a
  \<^verbatim>\<open>WidgetDidRender\<close> call does not match.
\<close>

fun replay :: "Call list \<Rightarrow> Widget list \<Rightarrow> Widget list option" where
  "replay [] opened = Some opened"
| "replay (Widget_WidgetWillRender w # calls) opened = replay calls (w # opened)"
| "replay (Widget_WidgetDidRender w # calls) opened =
    (case opened of
       [] \<Rightarrow> None
     | t # rest \<Rightarrow> if t = w then replay calls rest else None)"
| "replay (c # calls) opened = replay calls opened"

text \<open>The three calls that finalise one item (lines 72 to 74).\<close>

definition finalize_calls :: "WidgetItem \<Rightarrow> Call list" where
  "finalize_calls item =
     [Widget_WidgetDidRender (widget item), delete_WidgetItem item, nvgRestore]"

section \<open>Hit testing: \<^verbatim>\<open>WidgetView::ShouldHandleEvent\<close>\<close>

text \<open>
  \<^verbatim>\<open>ShouldHandleEvent(location, widget)\<close> with the field \<^verbatim>\<open>event_responder_\<close> passed in
  and returned. \<open>responder_loop\<close> is the \<^verbatim>\<open>for\<close> loop of lines 210 to 220 over the
  reversed child list.
\<close>

function ShouldHandleEvent :: "Point \<Rightarrow> Widget \<Rightarrow> Widget option \<Rightarrow> bool \<times> Widget option"
  and responder_loop :: "Point \<Rightarrow> Widget list \<Rightarrow> Widget option \<Rightarrow> bool \<times> Widget option"
where
  "ShouldHandleEvent location (Widget i hid x y w h s ev chs) event_responder =
    (if hid then (False, event_responder)
     else responder_loop location (rev chs) event_responder)"
| "responder_loop location [] event_responder = (False, event_responder)"
| "responder_loop location (child # rest) event_responder =
    (case ShouldHandleEvent location child event_responder of
       (True, responder1) \<Rightarrow> (True, responder1)
     | (False, responder1) \<Rightarrow>
         if Widget_ShouldHandleEvent child location then (True, Some child)
         else responder_loop location rest responder1)"
  by pat_completeness auto
termination
proof (relation "measure (\<lambda>a. case a of
                     Inl (location, w, r) \<Rightarrow> 2 * size w
                   | Inr (location, ws, r) \<Rightarrow> 2 * size_list size ws + 1)")
  have rev_size: "size_list size (rev ws) = size_list size ws" for ws :: "Widget list"
    by (induction ws) simp_all
  fix location :: Point and i hid x y w h s ev and chs :: "Widget list"
    and event_responder :: "Widget option"
  show "(Inr (location, rev chs, event_responder),
         Inl (location, Widget i hid x y w h s ev chs, event_responder))
        \<in> measure (\<lambda>a. case a of
                     Inl (location, w, r) \<Rightarrow> 2 * size w
                   | Inr (location, ws, r) \<Rightarrow> 2 * size_list size ws + 1)"
    by (simp add: rev_size)
qed simp_all

text \<open>The public entry point \<^verbatim>\<open>ShouldHandleEvent(location)\<close>, which starts at the root.\<close>

definition ShouldHandleEvent_root :: "Point \<Rightarrow> Widget \<Rightarrow> Widget option \<Rightarrow> bool \<times> Widget option" where
  "ShouldHandleEvent_root location root_widget event_responder =
     ShouldHandleEvent location root_widget event_responder"

text \<open>
  The widgets whose own predicate the walk may call, in the order in which it reaches
  them: the children of a widget that is not hidden, last child first, and for each child
  the candidates below it before the child itself.
\<close>

fun candidates :: "Widget \<Rightarrow> Widget list" where
  "candidates (Widget i hid x y w h s ev chs) =
    (if hid then [] else concat (map (\<lambda>child. candidates child @ [child]) (rev chs)))"

section \<open>Attaching a child: \<^verbatim>\<open>Widget::AddChild\<close>\<close>

text \<open>
  \<^verbatim>\<open>AddChild\<close> changes an object that other objects point to, so the widgets live in a
  store from addresses to objects here. Of the data members of \<^verbatim>\<open>widget.h\<close> the object
  keeps the three the operation is about, named without the trailing underscore of the
  source: \<^verbatim>\<open>children_\<close>, \<^verbatim>\<open>parent_\<close> (\<open>None\<close> is \<^verbatim>\<open>nullptr\<close>) and
  \<^verbatim>\<open>measured_scale_\<close>, where \<open>None\<close> stands for the state after
  \<^verbatim>\<open>ResetMeasuredScale()\<close> (the value is computed again by the next
  \<^verbatim>\<open>GetMeasuredScale()\<close>) and \<open>Some v\<close> for a memoised value.
\<close>

record Widget_object =
  obj_children :: "nat list"
  obj_parent :: "nat option"
  obj_measured_scale :: "real option"

type_synonym store = "nat \<Rightarrow> Widget_object"

text \<open>\<^verbatim>\<open>void Widget::AddChild(Widget* child) { children_.push_back(child); }\<close>\<close>

definition AddChild :: "nat \<Rightarrow> nat \<Rightarrow> store \<Rightarrow> store" where
  "AddChild this child st = st(this := (st this)\<lparr>obj_children := obj_children (st this) @ [child]\<rparr>)"

text \<open>
  The store used to try \<^verbatim>\<open>AddChild\<close>: a parent at address 1 without children, and at
  address 2 a widget without parent whose measured scale is memoised as 2.
\<close>

definition example_store :: store where
  "example_store =
     (\<lambda>a. \<lparr>obj_children = [], obj_parent = None,
            obj_measured_scale = (if a = 2 then Some 2 else None)\<rparr>)"

section \<open>The redraw trigger: \<^verbatim>\<open>BaseView::Redraw\<close>\<close>

text \<open>
  The two flags of the view (\<^verbatim>\<open>is_redrawing_\<close> and \<^verbatim>\<open>waiting_for_redraw_\<close>) are read
  and written under \<^verbatim>\<open>redraw_mutex\<close> only, so each of the two locked regions of
  \<^verbatim>\<open>Redraw\<close> runs as one step. \<open>render_passes\<close> counts the calls of
  \<^verbatim>\<open>RenderNativeView()\<close> on the view.
\<close>

record BaseView =
  is_redrawing :: bool
  waiting_for_redraw :: bool
  render_passes :: nat

text \<open>
  Lines 87 to 94: the first locked region. The first component says whether the call goes
  on to render (\<open>False\<close> is the early \<^verbatim>\<open>return\<close>).
\<close>

definition Redraw_enter :: "BaseView \<Rightarrow> bool \<times> BaseView" where
  "Redraw_enter v =
    (if is_redrawing v then (False, v\<lparr>waiting_for_redraw := True\<rparr>)
     else (True, v\<lparr>is_redrawing := True\<rparr>))"

definition RenderNativeView :: "BaseView \<Rightarrow> BaseView" where
  "RenderNativeView v = v\<lparr>render_passes := render_passes v + 1\<rparr>"

text \<open>Lines 99 to 103: the second locked region, which returns \<^verbatim>\<open>kShouldRedraw\<close>.\<close>

definition Redraw_leave :: "BaseView \<Rightarrow> bool \<times> BaseView" where
  "Redraw_leave v =
    (waiting_for_redraw v, v\<lparr>is_redrawing := False, waiting_for_redraw := False\<rparr>)"

text \<open>
  A call of \<^verbatim>\<open>Redraw()\<close> that another thread makes while a pass is in progress: it finds
  \<^verbatim>\<open>is_redrawing_\<close> set, so it runs the first locked region and returns.
\<close>

definition Redraw_while_rendering :: "BaseView \<Rightarrow> BaseView" where
  "Redraw_while_rendering v = snd (Redraw_enter v)"

text \<open>
  \<^verbatim>\<open>BaseView::Redraw()\<close>. The first argument is the environment: its head is the number of
  \<^verbatim>\<open>Redraw()\<close> calls that arrive from other threads while this call's pass is in progress
  (between its two locked regions), its tail is the same for the passes the call triggers
  itself; the empty list means that no further call arrives.
\<close>

function Redraw :: "nat list \<Rightarrow> BaseView \<Rightarrow> BaseView" where
  "Redraw arrivals v =
    (case Redraw_enter v of
       (False, v1) \<Rightarrow> v1
     | (True, v1) \<Rightarrow>
         (let v2 = RenderNativeView v1;
              v3 = (Redraw_while_rendering ^^ (case arrivals of [] \<Rightarrow> 0 | n # rest \<Rightarrow> n)) v2
          in case Redraw_leave v3 of
               (kShouldRedraw, v4) \<Rightarrow>
                 if kShouldRedraw then Redraw (tl arrivals) v4 else v4))"
  by pat_completeness auto
termination
proof (relation "measure (\<lambda>(arrivals, v).
                   2 * length arrivals + (if waiting_for_redraw v then 1 else 0))")
  show "wf (measure (\<lambda>(arrivals, v).
                   2 * length arrivals + (if waiting_for_redraw v then 1 else 0)))"
    by simp
next
  fix arrivals :: "nat list" and v v1 v2 v3 v4 :: BaseView and b kShouldRedraw :: bool
  assume enter0: "(b, v1) = Redraw_enter v" and b: "b = True"
    and v2: "v2 = RenderNativeView v1"
    and v3: "v3 = (Redraw_while_rendering ^^ (case arrivals of [] \<Rightarrow> 0 | n # rest \<Rightarrow> n)) v2"
    and leave: "(kShouldRedraw, v4) = Redraw_leave v3"
    and again: "kShouldRedraw"
  have enter: "(True, v1) = Redraw_enter v"
    using enter0 b by simp
  have w4: "\<not> waiting_for_redraw v4"
    using leave by (simp add: Redraw_leave_def)
  show "((tl arrivals, v4), (arrivals, v))
        \<in> measure (\<lambda>(arrivals, v).
                   2 * length arrivals + (if waiting_for_redraw v then 1 else 0))"
  proof (cases arrivals)
    case Nil
    have "waiting_for_redraw v3"
      using leave again by (simp add: Redraw_leave_def)
    then have "waiting_for_redraw v"
      using enter v2 v3 Nil
      by (simp add: Redraw_enter_def RenderNativeView_def split: if_splits)
    then show ?thesis using Nil w4 by simp
  next
    case (Cons n rest)
    then show ?thesis using w4 by simp
  qed
qed

text \<open>A view on which no redraw is in progress or pending.\<close>

definition idle :: "BaseView \<Rightarrow> bool" where
  "idle v = (\<not> is_redrawing v \<and> \<not> waiting_for_redraw v)"

declare Redraw.simps [simp del]

section \<open>Further yardsticks\<close>

text \<open>
  The three calls one visit of the did-render pass and of the will-render pass makes for
  a node: the hook between a save and a restore. For the root the view's own hook stands
  in for the widget's.
\<close>

definition did_render_calls :: "nat \<Rightarrow> Widget \<Rightarrow> Call list" where
  "did_render_calls root_wid n =
     [nvgSave,
      (if wid n = root_wid then ViewDidRender else Widget_WidgetViewDidRender n),
      nvgRestore]"

definition will_render_calls :: "nat \<Rightarrow> Widget \<Rightarrow> Call list" where
  "will_render_calls root_wid n =
     [nvgSave,
      (if wid n = root_wid then ViewWillRender else Widget_WidgetViewWillRender n),
      nvgRestore]"

declare render_loop.simps(2) [simp del]

text \<open>
  The eight calls that open one item (lines 176 to 183), after the item is pushed.
\<close>

definition open_calls :: "WidgetItem \<Rightarrow> Call list" where
  "open_calls item =
     [nvgSave,
      nvgTranslate (point_x (origin item)) (point_y (origin item)),
      nvgScale (item_scale item) (item_scale item),
      nvgIntersectScissor 0 0 (width item) (height item),
      Widget_WidgetWillRender (widget item),
      nvgSave,
      Widget_RenderOnDemand (widget item),
      nvgRestore]"

text \<open>The widgets below a widget: its proper descendants, in pre-order.\<close>

definition below :: "Widget \<Rightarrow> Widget list" where
  "below w = concat (map preorder (children w))"

text \<open>A linear tree: no node has more than one child.\<close>

definition linear_tree :: "Widget \<Rightarrow> bool" where
  "linear_tree w = (\<forall>n \<in> set (preorder w). length (children n) \<le> 1)"

section \<open>Example trees\<close>

text \<open>Two hit-test predicates: one accepts every location, one accepts none.\<close>

definition accept_all :: "Point \<Rightarrow> bool" where
  "accept_all location = True"

definition accept_none :: "Point \<Rightarrow> bool" where
  "accept_none location = False"

text \<open>
  Three visible siblings X, Y and Z that accept every location, added in this order to a
  root of 800 by 600 points.
\<close>

definition widget_X :: Widget where
  "widget_X = Widget 1 False 0 0 100 100 1 accept_all []"

definition widget_Y :: Widget where
  "widget_Y = Widget 2 False 0 0 100 100 1 accept_all []"

definition widget_Z :: Widget where
  "widget_Z = Widget 3 False 0 0 100 100 1 accept_all []"

definition root_XYZ :: Widget where
  "root_XYZ = Widget 0 False 0 0 800 600 1 accept_none [widget_X, widget_Y, widget_Z]"

text \<open>A root without children.\<close>

definition root_alone :: Widget where
  "root_alone = Widget 0 False 0 0 800 600 1 accept_none []"

text \<open>A hidden widget that accepts every location, as the only child of a visible root.\<close>

definition widget_H :: Widget where
  "widget_H = Widget 1 True 0 0 100 100 1 accept_all []"

definition root_H :: Widget where
  "root_H = Widget 0 False 0 0 800 600 1 accept_none [widget_H]"

text \<open>A view at rest, and a view on which a redraw is in progress.\<close>

definition idle_view :: BaseView where
  "idle_view = \<lparr>is_redrawing = False, waiting_for_redraw = False, render_passes = 0\<rparr>"

definition busy_view :: BaseView where
  "busy_view = \<lparr>is_redrawing = True, waiting_for_redraw = False, render_passes = 0\<rparr>"

text \<open>A view of 800 by 600 points.\<close>

definition view800 :: WidgetView where
  "view800 = \<lparr>view_width = 800, view_height = 600\<rparr>"

text \<open>
  The scenario of the specification: a child at (50, 50) whose resolved size is 400 by 300
  in a root of 800 by 600.
\<close>

definition scenario_child :: Widget where
  "scenario_child = Widget 1 False 50 50 400 300 1 accept_none []"

definition scenario_root :: Widget where
  "scenario_root = Widget 0 False 0 0 800 600 1 accept_none [scenario_child]"

text \<open>A child of 100 by 100 that starts 50 points left of its parent's left edge.\<close>

definition widget_L :: Widget where
  "widget_L = Widget 1 False (-50) 0 100 100 1 accept_none []"

definition root_L :: Widget where
  "root_L = Widget 0 False 0 0 800 600 1 accept_none [widget_L]"

text \<open>A linear tree A, B, C of increasing depth.\<close>

definition chain_C :: Widget where
  "chain_C = Widget 2 False 10 10 100 100 1 accept_none []"

definition chain_B :: Widget where
  "chain_B = Widget 1 False 10 10 200 200 1 accept_none [chain_C]"

definition chain_A :: Widget where
  "chain_A = Widget 0 False 0 0 800 600 1 accept_none [chain_B]"

text \<open>A hidden widget with a visible child, next to a visible sibling.\<close>

definition pruned_D :: Widget where
  "pruned_D = Widget 2 False 0 0 10 10 1 accept_none []"

definition pruned_H :: Widget where
  "pruned_H = Widget 1 True 10 10 100 100 1 accept_none [pruned_D]"

definition pruned_root :: Widget where
  "pruned_root = Widget 0 False 0 0 800 600 1 accept_none [pruned_H, widget_Z]"

section \<open>Properties of hit testing\<close>

lemma find_append:
  "find P (xs @ ys) = (case find P xs of None \<Rightarrow> find P ys | Some x \<Rightarrow> Some x)"
  by (induction xs) auto

text \<open>
  The walk returns the first candidate that accepts the location and stores it; when no
  candidate accepts, it returns false and the responder it was given.
\<close>

lemma responder_char:
  "ShouldHandleEvent location w r =
     (case find (\<lambda>c. Widget_ShouldHandleEvent c location) (candidates w) of
        None \<Rightarrow> (False, r) | Some c \<Rightarrow> (True, Some c))"
  "responder_loop location cs r =
     (case find (\<lambda>c. Widget_ShouldHandleEvent c location)
                (concat (map (\<lambda>child. candidates child @ [child]) cs)) of
        None \<Rightarrow> (False, r) | Some c \<Rightarrow> (True, Some c))"
proof (induction location w r and location cs r rule: ShouldHandleEvent_responder_loop.induct)
  case (1 location i hid x y w h s ev chs event_responder)
  then show ?case by simp
next
  case (2 location event_responder)
  then show ?case by simp
next
  case (3 location child rest event_responder)
  show ?case
  proof (cases "find (\<lambda>c. Widget_ShouldHandleEvent c location) (candidates child)")
    case None
    then have a: "ShouldHandleEvent location child event_responder = (False, event_responder)"
      using 3(1) by simp
    show ?thesis
    proof (cases "Widget_ShouldHandleEvent child location")
      case True
      then show ?thesis using a None by (simp add: find_append)
    next
      case False
      then show ?thesis using a None 3(2)[OF a[symmetric]] by (simp add: find_append)
    qed
  next
    case (Some c)
    then show ?thesis using 3(1) by (simp add: find_append)
  qed
qed

text \<open>The walk does not descend below a hidden widget.\<close>

lemma candidates_hidden: "IsHidden w \<Longrightarrow> candidates w = []"
  by (cases w) simp

lemma find_in_set: "find P xs = Some x \<Longrightarrow> x \<in> set xs \<and> P x"
  by (induction xs) (auto split: if_splits)

text \<open>
  With children X, Y and Z of a visible root, in this order, and Z accepting the location,
  the responder is Z or a widget below Z: never X, Y or a widget below them.
\<close>

lemma front_child_or_below:
  assumes "\<not> IsHidden root_widget" "children root_widget = [X, Y, Z]"
    "Widget_ShouldHandleEvent Z location"
  shows "\<exists>c \<in> set (candidates Z @ [Z]).
           Widget_ShouldHandleEvent c location
           \<and> ShouldHandleEvent_root location root_widget r = (True, Some c)"
proof -
  have cands: "candidates root_widget
        = (candidates Z @ [Z]) @ (candidates Y @ [Y]) @ (candidates X @ [X])"
    using assms(1,2) by (cases root_widget) simp
  obtain c where c: "find (\<lambda>c. Widget_ShouldHandleEvent c location) (candidates Z @ [Z]) = Some c"
    using assms(3) by (cases "find (\<lambda>c. Widget_ShouldHandleEvent c location) (candidates Z @ [Z])")
      (auto simp: find_None_iff)
  have "find (\<lambda>c. Widget_ShouldHandleEvent c location)
          ((candidates Z @ [Z]) @ (candidates Y @ [Y]) @ (candidates X @ [X])) = Some c"
    by (subst find_append) (simp only: c option.case)
  then have "find (\<lambda>c. Widget_ShouldHandleEvent c location) (candidates root_widget) = Some c"
    by (simp only: cands)
  then have "ShouldHandleEvent_root location root_widget r = (True, Some c)"
    by (simp add: ShouldHandleEvent_root_def responder_char(1))
  then show ?thesis
    using find_in_set[OF c] by blast
qed

text \<open>
  C8. The resolver walks the children of each widget in reverse insertion order and, for
  each child, the widgets below the child before the child itself (the list
  \<open>candidates\<close>); the first widget of that walk whose own predicate accepts the location
  becomes the responder, whatever the responder was before. In particular, when the
  children of a visible root are X, Y and Z in this order and Z accepts the location, the
  responder is taken from Z and the widgets below it, and it is Z when no widget below Z
  accepts the location.
\<close>

theorem hit_test_front_most_first:
  "ShouldHandleEvent_root location root_widget r =
     (case find (\<lambda>c. Widget_ShouldHandleEvent c location) (candidates root_widget) of
        None \<Rightarrow> (False, r) | Some c \<Rightarrow> (True, Some c))
   \<and> (\<not> IsHidden root_widget \<and> children root_widget = [X, Y, Z]
        \<and> Widget_ShouldHandleEvent Z location
      \<longrightarrow> (\<exists>c \<in> set (candidates Z @ [Z]).
             ShouldHandleEvent_root location root_widget r = (True, Some c)))
   \<and> (\<not> IsHidden root_widget \<and> children root_widget = [X, Y, Z]
        \<and> Widget_ShouldHandleEvent Z location
        \<and> (\<forall>c \<in> set (candidates Z). \<not> Widget_ShouldHandleEvent c location)
      \<longrightarrow> ShouldHandleEvent_root location root_widget r = (True, Some Z))"
proof (intro conjI impI)
  show "ShouldHandleEvent_root location root_widget r =
     (case find (\<lambda>c. Widget_ShouldHandleEvent c location) (candidates root_widget) of
        None \<Rightarrow> (False, r) | Some c \<Rightarrow> (True, Some c))"
    by (simp add: ShouldHandleEvent_root_def responder_char(1))
  show "\<exists>c \<in> set (candidates Z @ [Z]).
          ShouldHandleEvent_root location root_widget r = (True, Some c)"
    if "\<not> IsHidden root_widget \<and> children root_widget = [X, Y, Z]
        \<and> Widget_ShouldHandleEvent Z location"
    using that front_child_or_below[of root_widget X Y Z location r] by blast
  show "ShouldHandleEvent_root location root_widget r = (True, Some Z)"
    if a: "\<not> IsHidden root_widget \<and> children root_widget = [X, Y, Z]
        \<and> Widget_ShouldHandleEvent Z location
        \<and> (\<forall>c \<in> set (candidates Z). \<not> Widget_ShouldHandleEvent c location)"
  proof -
    obtain c where c: "c \<in> set (candidates Z @ [Z])" "Widget_ShouldHandleEvent c location"
      "ShouldHandleEvent_root location root_widget r = (True, Some c)"
      using a front_child_or_below[of root_widget X Y Z location r] by blast
    have "c = Z" using c(1,2) a by auto
    then show ?thesis using c(3) by simp
  qed
qed

theorem hit_test_front_most_first_witness:
  "\<not> IsHidden root_XYZ \<and> children root_XYZ = [widget_X, widget_Y, widget_Z]
   \<and> Widget_ShouldHandleEvent widget_Z (Point 5 5) \<and> candidates widget_Z = []
   \<and> ShouldHandleEvent_root (Point 5 5) root_XYZ None = (True, Some widget_Z)"
proof -
  have hyps: "\<not> IsHidden root_XYZ \<and> children root_XYZ = [widget_X, widget_Y, widget_Z]
      \<and> Widget_ShouldHandleEvent widget_Z (Point 5 5) \<and> candidates widget_Z = []"
    by (simp add: root_XYZ_def widget_Z_def accept_all_def)
  have below: "\<forall>c \<in> set (candidates widget_Z). \<not> Widget_ShouldHandleEvent c (Point 5 5)"
    using hyps by simp
  have "ShouldHandleEvent_root (Point 5 5) root_XYZ None = (True, Some widget_Z)"
    using hyps below
      hit_test_front_most_first [of "Point 5 5" root_XYZ None widget_X widget_Y widget_Z]
    by blast
  then show ?thesis
    using hyps by simp
qed

text \<open>
  C10. When the hit test returns false, the stored event responder is the one stored
  before the call.
\<close>

theorem hit_test_miss_keeps_responder:
  "fst (ShouldHandleEvent_root location root_widget r) = False
   \<Longrightarrow> snd (ShouldHandleEvent_root location root_widget r) = r"
  by (simp add: ShouldHandleEvent_root_def responder_char(1) split: option.splits)

theorem hit_test_miss_keeps_responder_witness:
  "fst (ShouldHandleEvent_root (Point 5 5) root_alone (Some widget_X)) = False
   \<and> snd (ShouldHandleEvent_root (Point 5 5) root_alone (Some widget_X)) = Some widget_X"
proof -
  have miss: "fst (ShouldHandleEvent_root (Point 5 5) root_alone (Some widget_X)) = False"
    by (simp add: ShouldHandleEvent_root_def root_alone_def)
  show ?thesis
    using miss hit_test_miss_keeps_responder [OF miss] by simp
qed

text \<open>
  C2 at a concrete tree: a hidden child that accepts the location is stored as the event
  responder, although it is hidden.
\<close>

theorem hit_test_hidden_child_becomes_responder:
  "IsHidden widget_H
   \<and> ShouldHandleEvent_root (Point 5 5) root_H None = (True, Some widget_H)"
  by (simp add: ShouldHandleEvent_root_def root_H_def widget_H_def accept_all_def)

section \<open>Properties of the tree-wide passes\<close>

lemma concat_map_concat:
  "concat (map (\<lambda>c. concat (map f (g c))) cs) = concat (map f (concat (map g cs)))"
  by (induction cs) simp_all

lemma WidgetViewDidRender_preorder:
  "WidgetViewDidRender rw w = concat (map (did_render_calls rw) (preorder w))"
proof (induction rw w rule: WidgetViewDidRender.induct)
  case (1 root_wid i hid x y w h s ev chs)
  have "concat (map (WidgetViewDidRender root_wid) chs)
        = concat (map (\<lambda>c. concat (map (did_render_calls root_wid) (preorder c))) chs)"
    using 1 by (simp cong: map_cong)
  moreover have "did_render_calls root_wid (Widget i hid x y w h s ev chs)
      = [nvgSave,
         (if i = root_wid then ViewDidRender
          else Widget_WidgetViewDidRender (Widget i hid x y w h s ev chs)),
         nvgRestore]"
    by (simp add: did_render_calls_def)
  ultimately show ?case
    by (simp add: concat_map_concat)
qed

lemma WidgetViewWillRender_preorder:
  "WidgetViewWillRender rw w = concat (map (will_render_calls rw) (preorder w))"
proof (induction rw w rule: WidgetViewWillRender.induct)
  case (1 root_wid i hid x y w h s ev chs)
  have "concat (map (WidgetViewWillRender root_wid) chs)
        = concat (map (\<lambda>c. concat (map (will_render_calls root_wid) (preorder c))) chs)"
    using 1 by (simp cong: map_cong)
  moreover have "will_render_calls root_wid (Widget i hid x y w h s ev chs)
      = [nvgSave,
         (if i = root_wid then ViewWillRender
          else Widget_WidgetViewWillRender (Widget i hid x y w h s ev chs)),
         nvgRestore]"
    by (simp add: will_render_calls_def)
  ultimately show ?case
    by (simp add: concat_map_concat)
qed

text \<open>
  C9, as the code has it. Each of the two passes visits the nodes of the tree in
  pre-order (top-down: a node before its children, the children in insertion order, the
  subtree of a child before the next child), once each, and wraps each hook call in its
  own save and restore; for the root the view's own hook stands in for the widget's. The
  trace of each pass is exactly the sequence of these wrapped calls over the pre-order
  walk of the whole tree, so the did-render pass calls the hook of every node, hidden or
  not, and the will-render pass calls the hook of every node that is not hidden.
\<close>

theorem tree_wide_passes:
  "WidgetViewDidRender rw w = concat (map (did_render_calls rw) (preorder w))
   \<and> WidgetViewWillRender rw w = concat (map (will_render_calls rw) (preorder w))"
proof (intro conjI)
  show "WidgetViewDidRender rw w = concat (map (did_render_calls rw) (preorder w))"
    by (rule WidgetViewDidRender_preorder)
  show "WidgetViewWillRender rw w = concat (map (will_render_calls rw) (preorder w))"
    by (rule WidgetViewWillRender_preorder)
qed

text \<open>
  C9 as stated fails: the did-render pass calls the hook of a hidden widget.
\<close>

theorem did_render_pass_reaches_hidden:
  "IsHidden widget_H
   \<and> WidgetViewDidRender (wid root_H) root_H
       = [nvgSave, ViewDidRender, nvgRestore,
          nvgSave, Widget_WidgetViewDidRender widget_H, nvgRestore]"
  by (simp add: root_H_def widget_H_def)

section \<open>Properties of \<^verbatim>\<open>AddChild\<close>\<close>

text \<open>
  C6 at a concrete store: after \<^verbatim>\<open>AddChild\<close> the child is in the parent's child list, its
  parent reference is still \<^verbatim>\<open>nullptr\<close> and its memoised measured scale is still there.
\<close>

theorem AddChild_example:
  "obj_children (AddChild 1 2 example_store 1) = [2]
   \<and> obj_parent (AddChild 1 2 example_store 2) = None
   \<and> obj_measured_scale (AddChild 1 2 example_store 2) = Some 2"
  by (simp add: AddChild_def example_store_def)

text \<open>\<^verbatim>\<open>AddChild\<close> writes no parent reference and no measured scale of any object.\<close>

lemma AddChild_frame:
  "obj_parent (AddChild this child st a) = obj_parent (st a)"
  "obj_measured_scale (AddChild this child st a) = obj_measured_scale (st a)"
  by (simp_all add: AddChild_def)

section \<open>Properties of the redraw trigger\<close>

lemma Redraw_busy: "is_redrawing v \<Longrightarrow> Redraw arrivals v = v\<lparr>waiting_for_redraw := True\<rparr>"
  by (simp add: Redraw.simps Redraw_enter_def)

text \<open>
  A call made while a pass is in progress is a call of \<^verbatim>\<open>Redraw\<close> like any other: it takes
  the early return.
\<close>

lemma Redraw_while_rendering_is_Redraw:
  "is_redrawing v \<Longrightarrow> Redraw_while_rendering v = Redraw arrivals v"
  by (simp add: Redraw_busy Redraw_while_rendering_def Redraw_enter_def)

lemma requests_while_rendering:
  "is_redrawing v \<Longrightarrow>
   (Redraw_while_rendering ^^ n) v = (if n = 0 then v else v\<lparr>waiting_for_redraw := True\<rparr>)"
  by (induction n) (simp_all add: Redraw_while_rendering_def Redraw_enter_def)

lemma Redraw_idle_step:
  assumes "idle v"
  shows "Redraw [] v = v\<lparr>render_passes := render_passes v + 1\<rparr>"
    and "Redraw (0 # rest) v = v\<lparr>render_passes := render_passes v + 1\<rparr>"
    and "0 < n \<Longrightarrow> Redraw (n # rest) v = Redraw rest (v\<lparr>render_passes := render_passes v + 1\<rparr>)"
  using assms
  by (cases v; simp add: Redraw.simps[of "[]"] Redraw.simps[of "_ # _"] Redraw_enter_def
      Redraw_leave_def RenderNativeView_def requests_while_rendering idle_def Let_def)+

lemma Redraw_passes:
  "idle v \<Longrightarrow> Redraw arrivals v
     = v\<lparr>render_passes := render_passes v + 1 + length (takeWhile (\<lambda>n. 0 < n) arrivals)\<rparr>"
proof (induction arrivals arbitrary: v)
  case Nil
  then show ?case by (simp add: Redraw_idle_step)
next
  case (Cons n rest)
  show ?case
  proof (cases "0 < n")
    case True
    have "idle (v\<lparr>render_passes := render_passes v + 1\<rparr>)"
      using Cons.prems by (simp add: idle_def)
    then show ?thesis
      using True Cons.prems Cons.IH[of "v\<lparr>render_passes := render_passes v + 1\<rparr>"]
      by (simp add: Redraw_idle_step)
  next
    case False
    then show ?thesis using Cons.prems by (simp add: Redraw_idle_step)
  qed
qed

text \<open>
  C7. A call of \<^verbatim>\<open>Redraw\<close> on a view that is redrawing sets the pending flag and
  returns, without a render pass. A call on a view at rest during whose pass \<open>n \<ge> 1\<close>
  further calls arrive makes exactly two passes, and exactly one when none arrives; in
  general every pass is followed by at most one further pass, namely when at least one
  call arrived while it was in progress.
\<close>

theorem redraw_coalescing:
  "(is_redrawing v \<longrightarrow> Redraw arrivals v = v\<lparr>waiting_for_redraw := True\<rparr>)
   \<and> (idle v \<and> 0 < n \<longrightarrow> Redraw [n] v = v\<lparr>render_passes := render_passes v + 2\<rparr>)
   \<and> (idle v \<longrightarrow> Redraw [0] v = v\<lparr>render_passes := render_passes v + 1\<rparr>)
   \<and> (idle v \<longrightarrow> Redraw arrivals v
         = v\<lparr>render_passes := render_passes v + 1 + length (takeWhile (\<lambda>n. 0 < n) arrivals)\<rparr>)"
  by (simp add: Redraw_busy Redraw_passes)

theorem redraw_coalescing_witness:
  "is_redrawing busy_view
   \<and> Redraw [] busy_view = busy_view\<lparr>waiting_for_redraw := True\<rparr>
   \<and> idle idle_view \<and> (0::nat) < 1
   \<and> Redraw [1] idle_view = idle_view\<lparr>render_passes := 2\<rparr>
   \<and> Redraw [5] idle_view = idle_view\<lparr>render_passes := 2\<rparr>
   \<and> Redraw [0] idle_view = idle_view\<lparr>render_passes := 1\<rparr>"
proof -
  have busy: "is_redrawing busy_view"
    by (simp add: busy_view_def)
  have rest: "idle idle_view"
    by (simp add: idle_view_def idle_def)
  have passes: "render_passes idle_view = 0"
    by (simp add: idle_view_def)
  show ?thesis
    using busy rest passes
      redraw_coalescing [of busy_view "[]" 1]
      redraw_coalescing [of idle_view "[1]" 1]
      redraw_coalescing [of idle_view "[5]" 5]
    by simp
qed

section \<open>Properties of the visibility and clip planner\<close>

lemma subseq_concat_map:
  "(\<And>c. c \<in> set cs \<Longrightarrow> subseq (f c) (g c)) \<Longrightarrow> subseq (concat (map f cs)) (concat (map g cs))"
  by (induction cs) (auto intro: list_emb_append_mono)

lemma new_item_sel [simp]:
  "widget (new_item lv w parent g) = w"
  "level (new_item lv w parent g) = lv"
  "parent_item (new_item lv w parent g) = parent"
  by (simp_all add: new_item_def split: prod.splits)

text \<open>
  What one call appends: nothing, or the item of the widget followed by what the calls for
  the children append, in child order.
\<close>

lemma planner_cases:
  assumes "item \<in> set (PopulateWidgetList view lv scale_in (Widget i hid x y w h s ev chs) parent)"
  obtains g where "item_geometry view scale_in (Widget i hid x y w h s ev chs) parent = Some g"
    and "item = new_item lv (Widget i hid x y w h s ev chs) parent g
         \<or> (\<exists>c \<in> set chs. item \<in> set (PopulateWidgetList view (lv + 1) (scale_in * s) c
                 (Some (new_item lv (Widget i hid x y w h s ev chs) parent g))))"
proof -
  let ?w = "Widget i hid x y w h s ev chs"
  obtain g where g: "item_geometry view scale_in ?w parent = Some g"
    using assms by (cases "item_geometry view scale_in ?w parent") auto
  moreover have "item = new_item lv ?w parent g
         \<or> (\<exists>c \<in> set chs. item \<in> set (PopulateWidgetList view (lv + 1) (scale_in * s) c
                 (Some (new_item lv ?w parent g))))"
    using assms g by (auto simp: Let_def)
  ultimately show thesis using that by blast
qed

lemma planner_subseq:
  "subseq (map (\<lambda>item. (widget item, level item)) (PopulateWidgetList view lv sc w p))
          (preorder_depth lv w)"
proof (induction view lv sc w p rule: PopulateWidgetList.induct)
  case (1 view lv scale_in i hid x y w h s ev chs parent)
  let ?w = "Widget i hid x y w h s ev chs"
  show ?case
  proof (cases "item_geometry view scale_in ?w parent")
    case None
    then show ?thesis by simp
  next
    case (Some g)
    let ?item = "new_item lv ?w parent g"
    have "subseq (concat (map (\<lambda>c. map (\<lambda>item. (widget item, level item))
                    (PopulateWidgetList view (lv + 1) (scale_in * s) c (Some ?item))) chs))
                 (concat (map (preorder_depth (lv + 1)) chs))"
      by (rule subseq_concat_map) (use 1 Some in simp)
    then show ?thesis
      using Some by (simp add: map_concat comp_def Let_def)
  qed
qed

lemma preorder_depth_nodes: "map fst (preorder_depth d w) = preorder w"
proof (induction d w rule: preorder_depth.induct)
  case (1 d i hid x y w h s ev chs)
  have "concat (map (\<lambda>c. map fst (preorder_depth (d + 1) c)) chs) = concat (map preorder chs)"
    using 1 by (simp cong: map_cong)
  then show ?case by (simp add: map_concat comp_def)
qed

lemma depth_unique:
  assumes "distinct (map wid (preorder w))"
    and "(a, d1) \<in> set (preorder_depth d w)" and "(b, d2) \<in> set (preorder_depth d w)"
    and "wid a = wid b"
  shows "d1 = d2"
proof -
  have "map (\<lambda>p. wid (fst p)) (preorder_depth d w) = map wid (map fst (preorder_depth d w))"
    by (simp add: comp_def)
  then have "distinct (map (\<lambda>p. wid (fst p)) (preorder_depth d w))"
    using assms(1) by (simp only: preorder_depth_nodes)
  then have "inj_on (\<lambda>p. wid (fst p)) (set (preorder_depth d w))"
    by (simp add: distinct_map)
  then have inj: "inj_on (\<lambda>p. wid (fst p)) (set (preorder_depth d w))" .
  have "wid (fst (a, d1)) = wid (fst (b, d2)) \<longrightarrow> (a, d1) = (b, d2)"
    using inj assms(2,3) unfolding inj_on_def by blast
  then have "(a, d1) = (b, d2)"
    using assms(4) by simp
  then show ?thesis by simp
qed

lemma subseq_set: "subseq xs ys \<Longrightarrow> set xs \<subseteq> set ys"
  by (induction rule: list_emb.induct) auto

text \<open>
  C3. The items of the planner, read as pairs of node and level, are a subsequence of the
  pre-order walk of the tree that pairs every node with its depth: the items come in
  pre-order, so the item of a node comes before the items of the nodes below it. The
  level of an item is the depth of its node in the tree (nodes are told apart by their
  addresses, which are distinct in a tree).
\<close>

theorem planner_preorder_and_depth:
  "subseq (map (\<lambda>item. (widget item, level item)) (plan view root_widget))
          (preorder_depth 0 root_widget)
   \<and> (distinct (map wid (preorder root_widget)) \<longrightarrow>
        (\<forall>item \<in> set (plan view root_widget). \<forall>nd \<in> set (preorder_depth 0 root_widget).
            wid (fst nd) = wid (widget item) \<longrightarrow> level item = snd nd))"
proof (intro conjI impI ballI)
  show sub: "subseq (map (\<lambda>item. (widget item, level item)) (plan view root_widget))
          (preorder_depth 0 root_widget)"
    unfolding plan_def by (rule planner_subseq)
  fix item nd
  assume dist: "distinct (map wid (preorder root_widget))"
    and item: "item \<in> set (plan view root_widget)"
    and nd: "nd \<in> set (preorder_depth 0 root_widget)"
    and same: "wid (fst nd) = wid (widget item)"
  have "(widget item, level item) \<in> set (map (\<lambda>item. (widget item, level item)) (plan view root_widget))"
    using item by auto
  then have "(widget item, level item) \<in> set (preorder_depth 0 root_widget)"
    using subseq_set[OF sub] by blast
  moreover have "(fst nd, snd nd) \<in> set (preorder_depth 0 root_widget)"
    using nd by simp
  ultimately show "level item = snd nd"
    using depth_unique[OF dist _ _ same[symmetric]] by blast
qed

theorem planner_preorder_and_depth_witness:
  "distinct (map wid (preorder chain_A))
   \<and> map (\<lambda>item. (wid (widget item), level item)) (plan view800 chain_A) = [(0, 0), (1, 1), (2, 2)]
   \<and> map (\<lambda>nd. (wid (fst nd), snd nd)) (preorder_depth 0 chain_A) = [(0, 0), (1, 1), (2, 2)]
   \<and> subseq (map (\<lambda>item. (widget item, level item)) (plan view800 chain_A))
            (preorder_depth 0 chain_A)
   \<and> level (last (plan view800 chain_A)) = 2"
proof -
  have dist: "distinct (map wid (preorder chain_A))"
    by (simp add: chain_A_def chain_B_def chain_C_def)
  have items: "map (\<lambda>item. (wid (widget item), level item)) (plan view800 chain_A)
                = [(0, 0), (1, 1), (2, 2)]"
    by (simp add: plan_def chain_A_def chain_B_def chain_C_def view800_def item_geometry_def
        clip_to_parent_def new_item_def Let_def)
  have nodes: "map (\<lambda>nd. (wid (fst nd), snd nd)) (preorder_depth 0 chain_A)
                = [(0, 0), (1, 1), (2, 2)]"
    by (simp add: chain_A_def chain_B_def chain_C_def)
  note both = planner_preorder_and_depth[of view800 chain_A]
  have sub: "subseq (map (\<lambda>item. (widget item, level item)) (plan view800 chain_A))
            (preorder_depth 0 chain_A)"
    using both by (rule conjunct1)
  have depth: "\<forall>item \<in> set (plan view800 chain_A). \<forall>nd \<in> set (preorder_depth 0 chain_A).
            wid (fst nd) = wid (widget item) \<longrightarrow> level item = snd nd"
    using both dist by blast
  have ne: "plan view800 chain_A \<noteq> []"
    using items by auto
  have last_in: "last (plan view800 chain_A) \<in> set (plan view800 chain_A)"
    using ne by (rule last_in_set)
  have node_in: "(chain_C, 2) \<in> set (preorder_depth 0 chain_A)"
    by (simp add: chain_A_def chain_B_def chain_C_def)
  have "wid (widget (last (plan view800 chain_A))) = 2"
    by (simp add: plan_def chain_A_def chain_B_def chain_C_def view800_def item_geometry_def
        clip_to_parent_def new_item_def Let_def)
  then have "wid (fst (chain_C, 2::int)) = wid (widget (last (plan view800 chain_A)))"
    by (simp add: chain_C_def)
  then have "level (last (plan view800 chain_A)) = snd (chain_C, 2::int)"
    using depth last_in node_in by blast
  then have "level (last (plan view800 chain_A)) = 2"
    by simp
  then show ?thesis
    using dist items nodes sub by (intro conjI)
qed

lemma planner_levels:
  "item \<in> set (PopulateWidgetList view lv sc w p) \<Longrightarrow> lv \<le> level item"
proof (induction view lv sc w p rule: PopulateWidgetList.induct)
  case (1 view lv scale_in i hid x y w h s ev chs parent)
  from "1.prems" show ?case
  proof (cases rule: planner_cases)
    case (1 g)
    from 1(2) show ?thesis
    proof
      assume "item = new_item lv (Widget i hid x y w h s ev chs) parent g"
      then show ?thesis by simp
    next
      assume "\<exists>c \<in> set chs. item \<in> set (PopulateWidgetList view (lv + 1) (scale_in * s) c
                 (Some (new_item lv (Widget i hid x y w h s ev chs) parent g)))"
      then obtain c where c: "c \<in> set chs"
        "item \<in> set (PopulateWidgetList view (lv + 1) (scale_in * s) c
                 (Some (new_item lv (Widget i hid x y w h s ev chs) parent g)))"
        by blast
      have "lv + 1 \<le> level item"
        using "1.IH"[OF 1(1) refl refl c] .
      then show ?thesis by simp
    qed
  qed
qed

lemma plan_levels_nonneg: "\<forall>item \<in> set (plan view root_widget). 0 \<le> level item"
  by (auto simp: plan_def dest: planner_levels)

text \<open>
  The items of the nodes below a node follow the node's item and have a greater level.
\<close>

lemma planner_block:
  assumes "PopulateWidgetList view lv sc w p = item # sub"
  shows "widget item = w \<and> level item = lv \<and> (\<forall>s \<in> set sub. level item < level s)"
proof (cases w)
  case (Widget i hid x y wd h s ev chs)
  obtain g where g: "item_geometry view sc w p = Some g"
    using assms Widget by (cases "item_geometry view sc w p") auto
  have item: "item = new_item lv w p g"
    and sub: "sub = concat (map (\<lambda>c. PopulateWidgetList view (lv + 1) (sc * s) c (Some item)) chs)"
    using assms g Widget by (auto simp: Let_def)
  have "\<forall>s' \<in> set sub. lv + 1 \<le> level s'"
    using sub by (auto dest: planner_levels)
  then show ?thesis using item by auto
qed

lemma preorder_self: "w \<in> set (preorder w)"
  by (cases w) simp

lemma preorder_trans:
  "n \<in> set (preorder w) \<Longrightarrow> d \<in> set (preorder n) \<Longrightarrow> d \<in> set (preorder w)"
proof (induction w rule: preorder.induct)
  case (1 i hid x y w h s ev chs)
  then show ?case by auto
qed

lemma planner_widgets:
  "item \<in> set (PopulateWidgetList view lv sc w p) \<Longrightarrow> widget item \<in> set (preorder w)"
proof (induction view lv sc w p rule: PopulateWidgetList.induct)
  case (1 view lv scale_in i hid x y w h s ev chs parent)
  from "1.prems" show ?case
  proof (cases rule: planner_cases)
    case (1 g)
    from 1(2) show ?thesis
    proof
      assume "item = new_item lv (Widget i hid x y w h s ev chs) parent g"
      then show ?thesis by simp
    next
      assume "\<exists>c \<in> set chs. item \<in> set (PopulateWidgetList view (lv + 1) (scale_in * s) c
                 (Some (new_item lv (Widget i hid x y w h s ev chs) parent g)))"
      then obtain c where c: "c \<in> set chs"
        "item \<in> set (PopulateWidgetList view (lv + 1) (scale_in * s) c
                 (Some (new_item lv (Widget i hid x y w h s ev chs) parent g)))"
        by blast
      have "widget item \<in> set (preorder c)"
        using "1.IH"[OF 1(1) refl refl c] .
      then show ?thesis using c(1) by auto
    qed
  qed
qed

text \<open>The call for a node that is hidden or has no extent appends nothing.\<close>

lemma pruned_node_no_items:
  "IsHidden w \<or> GetWidth w \<le> 0 \<or> GetHeight w \<le> 0 \<Longrightarrow> PopulateWidgetList view lv sc w p = []"
  by (cases w) (auto simp: item_geometry_def)

lemma distinct_concat_disjoint:
  "distinct (map f (concat (map g xs))) \<Longrightarrow> a \<in> set xs \<Longrightarrow> b \<in> set xs \<Longrightarrow> a \<noteq> b
   \<Longrightarrow> u \<in> set (g a) \<Longrightarrow> v \<in> set (g b) \<Longrightarrow> f u \<noteq> f v"
proof (induction xs)
  case Nil
  then show ?case by simp
next
  case (Cons x xs)
  then show ?case by (auto simp: image_iff)
qed

lemma pruned_subtree_no_items:
  "distinct (map wid (preorder w)) \<Longrightarrow> n \<in> set (preorder w)
   \<Longrightarrow> IsHidden n \<or> GetWidth n \<le> 0 \<or> GetHeight n \<le> 0
   \<Longrightarrow> d \<in> set (preorder n)
   \<Longrightarrow> item \<in> set (PopulateWidgetList view lv sc w p) \<Longrightarrow> wid (widget item) \<noteq> wid d"
proof (induction view lv sc w p arbitrary: item rule: PopulateWidgetList.induct)
  case (1 view lv scale_in i hid x y w h s ev chs parent)
  let ?w = "Widget i hid x y w h s ev chs"
  show ?case
  proof (cases "n = ?w")
    case True
    then show ?thesis
      using "1.prems"(3,5) pruned_node_no_items[of ?w view lv scale_in parent]
      by (simp del: PopulateWidgetList.simps)
  next
    case False
    then obtain c where c: "c \<in> set chs" "n \<in> set (preorder c)"
      using "1.prems"(2) by auto
    have dc: "d \<in> set (preorder c)"
      using c(2) "1.prems"(4) by (rule preorder_trans)
    have dist_ch: "distinct (map wid (concat (map preorder chs)))"
      and root_fresh: "i \<notin> wid ` set (concat (map preorder chs))"
      using "1.prems"(1) by auto
    from "1.prems"(5) show ?thesis
    proof (cases rule: planner_cases)
      case (1 g)
      let ?item = "new_item lv ?w parent g"
      from 1(2) show ?thesis
      proof
        assume "item = ?item"
        then have "wid (widget item) = i" by simp
        moreover have "d \<in> set (concat (map preorder chs))"
          using c(1) dc by auto
        ultimately show ?thesis using root_fresh by (auto simp: image_iff)
      next
        assume "\<exists>c' \<in> set chs.
                  item \<in> set (PopulateWidgetList view (lv + 1) (scale_in * s) c' (Some ?item))"
        then obtain c' where c': "c' \<in> set chs"
          "item \<in> set (PopulateWidgetList view (lv + 1) (scale_in * s) c' (Some ?item))"
          by blast
        show ?thesis
        proof (cases "c' = c")
          case True
          have "distinct (map wid (preorder c))"
            using dist_ch c(1) by (induction chs) auto
          then show ?thesis
            using "1.IH"[OF 1(1) refl refl c(1) _ c(2) "1.prems"(3,4)] c'(2) True by simp
        next
          case False
          have "widget item \<in> set (preorder c')"
            using c'(2) by (rule planner_widgets)
          then show ?thesis
            using distinct_concat_disjoint[OF dist_ch c'(1) c(1) False _ dc] by simp
        qed
      qed
    qed
  qed
qed

text \<open>
  C4. For a node of the tree that is hidden or whose resolved width or height is not
  positive, the call for that node appends nothing, and the planner's list for the tree
  has no item for the node or for any node below it (nodes are told apart by their
  addresses, which are distinct in a tree).
\<close>

theorem planner_skips_pruned_subtrees:
  assumes "distinct (map wid (preorder root_widget))"
    and "n \<in> set (preorder root_widget)"
    and "IsHidden n \<or> GetWidth n \<le> 0 \<or> GetHeight n \<le> 0"
    and "d \<in> set (preorder n)"
  shows "PopulateWidgetList view lv sc n p = []
    \<and> (\<forall>item \<in> set (plan view root_widget). wid (widget item) \<noteq> wid d)"
  using assms pruned_node_no_items[of n view lv sc p]
    pruned_subtree_no_items[of root_widget n d _ view 0 1 None]
  by (auto simp: plan_def)

theorem planner_skips_pruned_subtrees_witness:
  "distinct (map wid (preorder pruned_root))
   \<and> pruned_H \<in> set (preorder pruned_root)
   \<and> IsHidden pruned_H
   \<and> pruned_D \<in> set (preorder pruned_H)
   \<and> PopulateWidgetList view800 1 1 pruned_H None = []
   \<and> wid pruned_D \<notin> set (map (\<lambda>item. wid (widget item)) (plan view800 pruned_root))
   \<and> map (\<lambda>item. wid (widget item)) (plan view800 pruned_root) = [0, 3]"
proof -
  have h1: "distinct (map wid (preorder pruned_root))"
    by (simp add: pruned_root_def pruned_H_def pruned_D_def widget_Z_def)
  have h2: "pruned_H \<in> set (preorder pruned_root)"
    by (simp add: pruned_root_def pruned_H_def pruned_D_def widget_Z_def)
  have hid: "IsHidden pruned_H"
    by (simp add: pruned_H_def)
  then have h3: "IsHidden pruned_H \<or> GetWidth pruned_H \<le> 0 \<or> GetHeight pruned_H \<le> 0"
    by simp
  have h4: "pruned_D \<in> set (preorder pruned_H)"
    by (simp add: pruned_H_def pruned_D_def)
  have ids: "map (\<lambda>item. wid (widget item)) (plan view800 pruned_root) = [0, 3]"
    by (simp add: plan_def pruned_root_def pruned_H_def pruned_D_def widget_Z_def view800_def
        item_geometry_def clip_to_parent_def new_item_def Let_def)
  have "PopulateWidgetList view800 1 1 pruned_H None = []
    \<and> (\<forall>item \<in> set (plan view800 pruned_root). wid (widget item) \<noteq> wid pruned_D)"
    using planner_skips_pruned_subtrees[OF h1 h2 h3 h4] .
  then show ?thesis
    using h1 h2 hid h4 ids by auto
qed

text \<open>
  The second \<^verbatim>\<open>std::min\<close> of lines 119 to 121 compares with
  \<^verbatim>\<open>scissor_origin.x + kScaledWidgetWidth - kParentOriginX\<close>. The scissor origin is
  never left of the parent's, so this term is never less than the scaled width and the
  call changes nothing (likewise for the height).
\<close>

lemma second_min_has_no_effect:
  fixes kScaledWidgetWidth :: real
  assumes "scissor_x = max kParentOriginX translated_x"
  shows "min (min kScaledWidgetWidth (kParentOriginX + parent_width - scissor_x))
             (scissor_x + kScaledWidgetWidth - kParentOriginX)
         = min kScaledWidgetWidth (kParentOriginX + parent_width - scissor_x)"
  using assms by (simp add: min_def max_def)

text \<open>
  The next two lemmas are about the arithmetic itself and hold for exact real arithmetic;
  \<^verbatim>\<open>float\<close> rounding and overflow are outside their scope.

  When the translated origin of the node is not left of and not above the parent's scissor
  origin, the scissor rectangle of the item is the intersection of the parent's scissor
  rectangle with the node's scaled bounds.
\<close>

lemma clip_to_parent_inside:
  assumes "clip_to_parent view sc w parent = Some (t, so, sw, sh)"
    and "point_x (scissor_origin parent) \<le> point_x (fst (scaled_bounds sc w parent))"
    and "point_y (scissor_origin parent) \<le> point_y (fst (scaled_bounds sc w parent))"
  shows "(so, sw, sh) = rect_intersection (item_scissor parent) (scaled_bounds sc w parent)"
    and "t = fst (scaled_bounds sc w parent)"
  using assms
  by (auto simp: clip_to_parent_def Let_def rect_intersection_def item_scissor_def
      scaled_bounds_def split: if_splits)

text \<open>When that intersection is empty, no item is created.\<close>

lemma clip_to_parent_empty:
  assumes "rect_empty (rect_intersection (item_scissor parent) (scaled_bounds sc w parent))"
  shows "clip_to_parent view sc w parent = None"
  using assms
  by (auto simp: clip_to_parent_def Let_def rect_intersection_def item_scissor_def
      scaled_bounds_def rect_empty_def min_def max_def split: if_splits)

text \<open>The scenario of the specification.\<close>

lemma spec_scenario:
  "map translated_origin (plan view800 scenario_root) = [Point 0 0, Point 50 50]
   \<and> map item_scissor (plan view800 scenario_root)
       = [(Point 0 0, 800, 600), (Point 50 50, 400, 300)]"
  by (simp add: plan_def scenario_root_def scenario_child_def view800_def item_geometry_def
      clip_to_parent_def new_item_def item_scissor_def Let_def)

text \<open>
  C1 at a concrete tree: for a child that starts 50 points left of its parent's scissor
  rectangle, the planner stores a scissor rectangle of width 100, while the intersection
  of the parent's scissor rectangle with the child's scaled bounds has width 50.
\<close>

theorem scissor_wider_than_intersection:
  "map translated_origin (plan view800 root_L) = [Point 0 0, Point (-50) 0]
   \<and> map item_scissor (plan view800 root_L) = [(Point 0 0, 800, 600), (Point 0 0, 100, 100)]
   \<and> scaled_bounds 1 widget_L (hd (plan view800 root_L)) = (Point (-50) 0, 100, 100)
   \<and> rect_intersection (Point 0 0, 800, 600) (Point (-50) 0, 100, 100) = (Point 0 0, 50, 100)"
  by (simp add: plan_def root_L_def widget_L_def view800_def item_geometry_def clip_to_parent_def
      new_item_def item_scissor_def Let_def scaled_bounds_def rect_intersection_def)

section \<open>Properties of the render executor\<close>

text \<open>
  \<^verbatim>\<open>PopAndFinalizeWidgetItems\<close> finalises the items at the top of the stack whose level
  is at least the given one, top first, and leaves the rest.
\<close>

lemma PopAndFinalize_char:
  "PopAndFinalizeWidgetItems lv st =
     (dropWhile (\<lambda>i. lv \<le> level i) st,
      concat (map finalize_calls (takeWhile (\<lambda>i. lv \<le> level i) st)))"
  by (induction st) (auto simp: finalize_calls_def)

lemma render_item_char:
  "render_item item st =
     (item # dropWhile (\<lambda>i. level item \<le> level i) st,
      concat (map finalize_calls (takeWhile (\<lambda>i. level item \<le> level i) st)) @ open_calls item)"
  by (simp add: render_item_def PopAndFinalize_char open_calls_def)

lemma finalized_items_append:
  "finalized_items (xs @ ys) = finalized_items xs @ finalized_items ys"
  by (induction xs rule: finalized_items.induct) simp_all

lemma did_render_order_append:
  "did_render_order (xs @ ys) = did_render_order xs @ did_render_order ys"
  by (induction xs rule: did_render_order.induct) simp_all

lemma finalized_items_finalize:
  "finalized_items (concat (map finalize_calls xs)) = xs"
  by (induction xs) (simp_all add: finalize_calls_def)

lemma did_render_order_finalize:
  "did_render_order (concat (map finalize_calls xs)) = map widget xs"
  by (induction xs) (simp_all add: finalize_calls_def)

lemma finalized_items_open: "finalized_items (open_calls item) = []"
  by (simp add: open_calls_def)

lemma did_render_order_open: "did_render_order (open_calls item) = []"
  by (simp add: open_calls_def)

lemma render_loop_Cons:
  "render_loop (item # L) st =
     (fst (render_loop L (item # dropWhile (\<lambda>i. level item \<le> level i) st)),
      concat (map finalize_calls (takeWhile (\<lambda>i. level item \<le> level i) st)) @ open_calls item
      @ snd (render_loop L (item # dropWhile (\<lambda>i. level item \<le> level i) st)))"
  by (simp add: render_loop.simps(2) render_item_char split: prod.splits)

lemma stack_loop_Cons:
  "fst (render_loop (item # L) st)
     = fst (render_loop L (item # dropWhile (\<lambda>i. level item \<le> level i) st))"
  by (simp add: render_loop_Cons)

lemma finalized_loop_Cons:
  "finalized_items (snd (render_loop (item # L) st)) =
     takeWhile (\<lambda>i. level item \<le> level i) st
     @ finalized_items (snd (render_loop L (item # dropWhile (\<lambda>i. level item \<le> level i) st)))"
  by (simp add: render_loop_Cons finalized_items_append finalized_items_finalize
      finalized_items_open)

lemma did_render_loop:
  "did_render_order (snd (render_loop L st)) = map widget (finalized_items (snd (render_loop L st)))"
proof (induction L arbitrary: st)
  case Nil
  then show ?case by simp
next
  case (Cons item L)
  show ?case
    by (simp add: render_loop_Cons did_render_order_append finalized_items_append
        did_render_order_finalize finalized_items_finalize did_render_order_open
        finalized_items_open Cons.IH)
qed

text \<open>
  Every item of the list and of the starting stack is either finalised by the loop or
  still on the stack after it, once.
\<close>

lemma render_loop_mset:
  "mset (finalized_items (snd (render_loop L st))) + mset (fst (render_loop L st))
     = mset L + mset st"
proof (induction L arbitrary: st)
  case Nil
  then show ?case by simp
next
  case (Cons item L)
  let ?P = "\<lambda>i. level item \<le> level i"
  have split: "mset st = mset (takeWhile ?P st) + mset (dropWhile ?P st)"
    by (simp flip: mset_append)
  have "mset (finalized_items (snd (render_loop (item # L) st)))
          + mset (fst (render_loop (item # L) st))
        = mset (takeWhile ?P st)
          + (mset (finalized_items (snd (render_loop L (item # dropWhile ?P st))))
             + mset (fst (render_loop L (item # dropWhile ?P st))))"
    by (simp only: finalized_loop_Cons stack_loop_Cons mset_append add.assoc)
  also have "\<dots> = mset (takeWhile ?P st) + (mset L + mset (item # dropWhile ?P st))"
    by (simp only: Cons.IH)
  also have "\<dots> = mset (item # L) + (mset (takeWhile ?P st) + mset (dropWhile ?P st))"
    by simp
  finally show ?case
    using split by simp
qed


lemma render_loop_sets:
  "set (finalized_items (snd (render_loop L st))) \<union> set (fst (render_loop L st))
     = set L \<union> set st"
proof -
  have "set_mset (mset (finalized_items (snd (render_loop L st))) + mset (fst (render_loop L st)))
        = set_mset (mset L + mset st)"
    by (simp only: render_loop_mset)
  then show ?thesis by simp
qed

lemma takeWhile_all: "\<forall>x \<in> set xs. P x \<Longrightarrow> takeWhile P xs = xs"
  by (induction xs) simp_all

lemma dropWhile_all: "\<forall>x \<in> set xs. P x \<Longrightarrow> dropWhile P xs = []"
  by (induction xs) simp_all

lemma render_items_char:
  assumes "\<forall>i \<in> set L. 0 \<le> level i"
  shows "render_items L =
           ([], snd (render_loop L []) @ concat (map finalize_calls (fst (render_loop L []))))"
proof -
  have "set (fst (render_loop L [])) \<subseteq> set L"
    using render_loop_sets[of L "[]"] by auto
  then have all: "\<forall>i \<in> set (fst (render_loop L [])). 0 \<le> level i"
    using assms by auto
  obtain S C where loop: "render_loop L [] = (S, C)"
    by (cases "render_loop L []")
  have "PopAndFinalizeWidgetItems 0 S = ([], concat (map finalize_calls S))"
    using all loop by (simp add: PopAndFinalize_char takeWhile_all dropWhile_all)
  then show ?thesis
    using loop by (simp add: render_items_def)
qed

lemma render_items_finalized:
  assumes "\<forall>i \<in> set L. 0 \<le> level i"
  shows "finalized_items (snd (render_items L))
           = finalized_items (snd (render_loop L [])) @ fst (render_loop L [])"
  by (simp add: render_items_char[OF assms] finalized_items_append finalized_items_finalize)

lemma render_items_did_render:
  assumes "\<forall>i \<in> set L. 0 \<le> level i"
  shows "did_render_order (snd (render_items L)) = map widget (finalized_items (snd (render_items L)))"
  by (simp add: render_items_char[OF assms] finalized_items_append finalized_items_finalize
      did_render_order_append did_render_order_finalize did_render_loop)

lemma render_items_mset:
  assumes "\<forall>i \<in> set L. 0 \<le> level i"
  shows "mset (finalized_items (snd (render_items L))) = mset L"
  using render_loop_mset[of L "[]"] by (simp add: render_items_finalized[OF assms])

lemma count_concat_finalize:
  "count_list (concat (map finalize_calls xs)) nvgSave = 0"
  "count_list (concat (map finalize_calls xs)) nvgRestore = length xs"
  by (induction xs) (simp_all add: finalize_calls_def)

lemma count_open:
  "count_list (open_calls item) nvgSave = 2"
  "count_list (open_calls item) nvgRestore = 1"
  by (simp_all add: open_calls_def)

lemma count_loop:
  "count_list (snd (render_loop L st)) nvgSave = 2 * length L"
  "count_list (snd (render_loop L st)) nvgRestore
     = length L + length (finalized_items (snd (render_loop L st)))"
proof (induction L arbitrary: st)
  case Nil
  { case 1 show ?case by simp }
  { case 2 show ?case by simp }
next
  case (Cons item L)
  { case 1 show ?case
      by (simp add: render_loop_Cons count_concat_finalize count_open Cons.IH(1)) }
  { case 2 show ?case
      by (simp add: render_loop_Cons count_concat_finalize count_open Cons.IH(2)
          finalized_items_append finalized_items_finalize finalized_items_open) }
qed

text \<open>Every save point is restored: the trace has as many restores as saves.\<close>

lemma save_points_balanced:
  assumes "\<forall>i \<in> set L. 0 \<le> level i"
  shows "count_list (snd (render_items L)) nvgSave = 2 * length L"
    and "count_list (snd (render_items L)) nvgRestore = 2 * length L"
proof -
  have "size (mset (finalized_items (snd (render_loop L []))) + mset (fst (render_loop L [])))
        = size (mset L + mset [])"
    by (simp only: render_loop_mset)
  then have len: "length (finalized_items (snd (render_loop L []))) + length (fst (render_loop L []))
        = length L"
    by simp
  show "count_list (snd (render_items L)) nvgSave = 2 * length L"
    by (simp add: render_items_char[OF assms] count_loop count_concat_finalize)
  show "count_list (snd (render_items L)) nvgRestore = 2 * length L"
    using len by (simp add: render_items_char[OF assms] count_loop count_concat_finalize)
qed

lemma take_drop_below:
  assumes "\<not> P a \<or> \<not> (\<forall>t \<in> set ups. P t)"
  shows "takeWhile P (ups @ a # rest) = takeWhile P ups"
    and "dropWhile P (ups @ a # rest) = dropWhile P ups @ a # rest"
proof -
  show "takeWhile P (ups @ a # rest) = takeWhile P ups"
  proof (cases "\<forall>t \<in> set ups. P t")
    case True
    then show ?thesis using assms by (simp add: takeWhile_all)
  next
    case False
    then show ?thesis by (auto simp: takeWhile_append1)
  qed
  show "dropWhile P (ups @ a # rest) = dropWhile P ups @ a # rest"
  proof (cases "\<forall>t \<in> set ups. P t")
    case True
    then show ?thesis using assms by (simp add: dropWhile_all)
  next
    case False
    then show ?thesis by (auto simp: dropWhile_append1)
  qed
qed

text \<open>
  Whatever the rest of the list is, the items above an item on the stack are finalised
  before that item.
\<close>

lemma open_above_finalized_first:
  "\<exists>xs ys. finalized_items (snd (render_loop L (ups @ a # rest)))
              @ fst (render_loop L (ups @ a # rest)) = xs @ a # ys
           \<and> mset ups \<subseteq># mset xs"
proof (induction L arbitrary: ups rest)
  case Nil
  show ?case by (rule exI[of _ ups], rule exI[of _ rest]) simp
next
  case (Cons item L)
  let ?P = "\<lambda>i. level item \<le> level i"
  show ?case
  proof (cases "?P a \<and> (\<forall>t \<in> set ups. ?P t)")
    case True
    then have tw: "takeWhile ?P (ups @ a # rest) = ups @ a # takeWhile ?P rest"
      by (simp add: takeWhile_append2)
    show ?thesis
      by (rule exI[of _ ups]) (simp add: finalized_loop_Cons stack_loop_Cons tw)
  next
    case False
    then have c: "\<not> ?P a \<or> \<not> (\<forall>t \<in> set ups. ?P t)" by blast
    have tw: "takeWhile ?P (ups @ a # rest) = takeWhile ?P ups"
      and dw: "dropWhile ?P (ups @ a # rest) = dropWhile ?P ups @ a # rest"
      using take_drop_below[of ?P a ups rest, OF c] by blast+
    obtain xs ys where
      ih: "finalized_items (snd (render_loop L ((item # dropWhile ?P ups) @ a # rest)))
             @ fst (render_loop L ((item # dropWhile ?P ups) @ a # rest)) = xs @ a # ys"
      and sub: "mset (item # dropWhile ?P ups) \<subseteq># mset xs"
      using Cons.IH[of "item # dropWhile ?P ups" rest] by blast
    have "mset ups = mset (takeWhile ?P ups) + mset (dropWhile ?P ups)"
      by (simp flip: mset_append)
    also have "\<dots> \<subseteq># mset (takeWhile ?P ups) + mset (item # dropWhile ?P ups)"
      by simp
    also have "\<dots> \<subseteq># mset (takeWhile ?P ups) + mset xs"
      using sub by (simp only: mset_subset_eq_mono_add_left_cancel)
    finally have "mset ups \<subseteq># mset (takeWhile ?P ups @ xs)"
      by simp
    moreover have "finalized_items (snd (render_loop (item # L) (ups @ a # rest)))
              @ fst (render_loop (item # L) (ups @ a # rest))
            = (takeWhile ?P ups @ xs) @ a # ys"
      using ih by (simp add: finalized_loop_Cons stack_loop_Cons tw dw)
    ultimately show ?thesis by blast
  qed
qed

text \<open>
  While the loop runs over items of a greater level than an item on the stack, that item
  stays on the stack.
\<close>

lemma deeper_block_keeps_item_open:
  assumes "\<forall>s \<in> set sub. level a < level s"
  shows "\<exists>ups'. fst (render_loop sub (ups @ a # rest)) = ups' @ a # rest
           \<and> mset (finalized_items (snd (render_loop sub (ups @ a # rest)))) + mset ups'
               = mset sub + mset ups"
  using assms
proof (induction sub arbitrary: ups)
  case Nil
  show ?case by (rule exI[of _ ups]) simp
next
  case (Cons s sub)
  let ?P = "\<lambda>i. level s \<le> level i"
  have "\<not> ?P a" using Cons.prems by simp
  then have c: "\<not> ?P a \<or> \<not> (\<forall>t \<in> set ups. ?P t)" by blast
  have tw: "takeWhile ?P (ups @ a # rest) = takeWhile ?P ups"
    and dw: "dropWhile ?P (ups @ a # rest) = dropWhile ?P ups @ a # rest"
    using take_drop_below[of ?P a ups rest, OF c] by blast+
  obtain ups' where
    st: "fst (render_loop sub ((s # dropWhile ?P ups) @ a # rest)) = ups' @ a # rest"
    and ms: "mset (finalized_items (snd (render_loop sub ((s # dropWhile ?P ups) @ a # rest))))
               + mset ups' = mset sub + mset (s # dropWhile ?P ups)"
    using Cons.IH[of "s # dropWhile ?P ups"] Cons.prems by auto
  have split: "mset ups = mset (takeWhile ?P ups) + mset (dropWhile ?P ups)"
    by (simp flip: mset_append)
  have "fst (render_loop (s # sub) (ups @ a # rest)) = ups' @ a # rest"
    using st by (simp add: stack_loop_Cons dw)
  moreover have "mset (finalized_items (snd (render_loop (s # sub) (ups @ a # rest)))) + mset ups'
      = mset (takeWhile ?P ups)
        + (mset (finalized_items (snd (render_loop sub ((s # dropWhile ?P ups) @ a # rest))))
           + mset ups')"
    by (simp add: finalized_loop_Cons tw dw)
  then have "mset (finalized_items (snd (render_loop (s # sub) (ups @ a # rest)))) + mset ups'
      = mset (s # sub) + mset ups"
    using ms split by simp
  ultimately show ?case by blast
qed


lemma render_loop_append:
  "fst (render_loop (A @ B) st) = fst (render_loop B (fst (render_loop A st)))"
  "finalized_items (snd (render_loop (A @ B) st))
     = finalized_items (snd (render_loop A st))
       @ finalized_items (snd (render_loop B (fst (render_loop A st))))"
proof (induction A arbitrary: st)
  case Nil
  { case 1 show ?case by simp }
  { case 2 show ?case by simp }
next
  case (Cons item A)
  { case 1 show ?case by (simp add: stack_loop_Cons Cons.IH(1)) }
  { case 2 show ?case by (simp add: stack_loop_Cons finalized_loop_Cons Cons.IH(2)) }
qed

lemma descendants_finalized_first:
  assumes "\<forall>s \<in> set sub. level a < level s"
  shows "\<exists>xs ys. finalized_items (snd (render_loop (pre @ a # sub @ post) []))
                    @ fst (render_loop (pre @ a # sub @ post) []) = xs @ a # ys
                 \<and> mset sub \<subseteq># mset xs"
proof -
  let ?P = "\<lambda>i. level a \<le> level i"
  let ?S0 = "fst (render_loop pre [])"
  let ?F0 = "finalized_items (snd (render_loop pre []))"
  let ?rest = "dropWhile ?P ?S0"
  obtain ups where
    st: "fst (render_loop sub ([] @ a # ?rest)) = ups @ a # ?rest"
    and ms: "mset (finalized_items (snd (render_loop sub ([] @ a # ?rest)))) + mset ups
               = mset sub + mset []"
    using deeper_block_keeps_item_open[OF assms, of "[]" ?rest] by blast
  let ?F2 = "finalized_items (snd (render_loop sub (a # ?rest)))"
  obtain xs ys where
    fin: "finalized_items (snd (render_loop post (ups @ a # ?rest)))
            @ fst (render_loop post (ups @ a # ?rest)) = xs @ a # ys"
    and sub: "mset ups \<subseteq># mset xs"
    using open_above_finalized_first[of post ups a ?rest] by blast
  have loop_a: "fst (render_loop (a # sub @ post) ?S0) = fst (render_loop post (ups @ a # ?rest))"
    "finalized_items (snd (render_loop (a # sub @ post) ?S0))
       = takeWhile ?P ?S0 @ ?F2 @ finalized_items (snd (render_loop post (ups @ a # ?rest)))"
    using st by (simp_all add: stack_loop_Cons finalized_loop_Cons render_loop_append)
  have "finalized_items (snd (render_loop (pre @ a # sub @ post) []))
          @ fst (render_loop (pre @ a # sub @ post) [])
        = (?F0 @ takeWhile ?P ?S0 @ ?F2 @ xs) @ a # ys"
    using fin by (simp add: render_loop_append[of pre "a # sub @ post"] loop_a)
  moreover have "mset sub = mset ?F2 + mset ups"
    using ms by simp
  then have "mset sub \<subseteq># mset ?F2 + mset xs"
    using sub by (simp only: mset_subset_eq_mono_add_left_cancel)
  then have "mset sub \<subseteq># mset (?F0 @ takeWhile ?P ?S0 @ ?F2 @ xs)"
    by (simp add: subset_mset.add_increasing)
  ultimately show ?thesis by blast
qed

lemma replay_append:
  "replay (xs @ ys) opened = (case replay xs opened of None \<Rightarrow> None | Some o' \<Rightarrow> replay ys o')"
  by (induction xs opened rule: replay.induct) (simp_all split: list.splits)

lemma replay_finalize:
  "replay (concat (map finalize_calls xs)) (map widget xs @ base) = Some base"
  by (induction xs) (simp_all add: finalize_calls_def)

lemma replay_open: "replay (open_calls item) opened = Some (widget item # opened)"
  by (simp add: open_calls_def)

lemma replay_loop:
  "replay (snd (render_loop L st)) (map widget st) = Some (map widget (fst (render_loop L st)))"
proof (induction L arbitrary: st)
  case Nil
  then show ?case by simp
next
  case (Cons item L)
  let ?P = "\<lambda>i. level item \<le> level i"
  have "map widget st = map widget (takeWhile ?P st) @ map widget (dropWhile ?P st)"
    by (simp flip: map_append)
  then have "replay (concat (map finalize_calls (takeWhile ?P st))) (map widget st)
               = Some (map widget (dropWhile ?P st))"
    by (simp only: replay_finalize)
  then show ?case
    using Cons.IH[of "item # dropWhile ?P st"]
    by (simp add: render_loop_Cons replay_append replay_open)
qed

lemma replay_render_items:
  assumes "\<forall>i \<in> set L. 0 \<le> level i"
  shows "replay (snd (render_items L)) [] = Some []"
  using replay_loop[of L "[]"] replay_finalize[of "fst (render_loop L [])" "[]"]
  by (simp add: render_items_char[OF assms] replay_append)

lemma increasing_levels_stay_open:
  "sorted_wrt (<) (map level L) \<Longrightarrow> \<forall>s \<in> set st. \<forall>i \<in> set L. level s < level i
   \<Longrightarrow> fst (render_loop L st) = rev L @ st \<and> finalized_items (snd (render_loop L st)) = []"
proof (induction L arbitrary: st)
  case Nil
  then show ?case by simp
next
  case (Cons item L)
  let ?P = "\<lambda>i. level item \<le> level i"
  have none: "\<forall>s \<in> set st. \<not> ?P s"
    using Cons.prems(2) by auto
  have tw: "takeWhile ?P st = []" and dw: "dropWhile ?P st = st"
    using none by (cases st; simp)+
  have "\<forall>s \<in> set (item # st). \<forall>i \<in> set L. level s < level i"
    using Cons.prems by auto
  then show ?case
    using Cons.IH[of "item # st"] Cons.prems(1)
    by (simp add: stack_loop_Cons finalized_loop_Cons tw dw)
qed

lemma increasing_levels_reverse:
  assumes "\<forall>i \<in> set L. 0 \<le> level i" and "sorted_wrt (<) (map level L)"
  shows "did_render_order (snd (render_items L)) = rev (map widget L)"
  using increasing_levels_stay_open[OF assms(2), of "[]"]
  by (simp add: render_items_did_render[OF assms(1)] render_items_finalized[OF assms(1)] rev_map)

text \<open>The levels on the rendering stack decrease strictly from the top.\<close>

lemma stack_stays_sorted:
  "sorted_wrt (>) (map level st) \<Longrightarrow> sorted_wrt (>) (map level (fst (render_loop L st)))"
proof (induction L arbitrary: st)
  case Nil
  then show ?case by simp
next
  case (Cons item L)
  let ?P = "\<lambda>i. level item \<le> level i"
  have "sorted_wrt (>) (map level (dropWhile ?P st))"
    using Cons.prems by (induction st) auto
  moreover have "\<forall>s \<in> set (dropWhile ?P st). level s < level item"
    using Cons.prems
  proof (induction st)
    case Nil
    then show ?case by simp
  next
    case (Cons t st)
    then show ?case by (cases "?P t") auto
  qed
  ultimately have "sorted_wrt (>) (map level (item # dropWhile ?P st))"
    by auto
  then show ?case
    using Cons.IH by (simp add: stack_loop_Cons)
qed


lemma takeWhile_filter_sorted:
  "sorted_wrt (>) (map level st) \<Longrightarrow>
     takeWhile (\<lambda>i. lv \<le> level i) st = filter (\<lambda>i. lv \<le> level i) st
     \<and> dropWhile (\<lambda>i. lv \<le> level i) st = filter (\<lambda>i. level i < lv) st"
proof (induction st)
  case Nil
  then show ?case by simp
next
  case (Cons t st)
  show ?case
  proof (cases "lv \<le> level t")
    case True
    then show ?thesis using Cons by auto
  next
    case False
    then have "\<forall>s \<in> set st. level s < lv"
      using Cons.prems by auto
    then have "filter (\<lambda>i. lv \<le> level i) st = []" "filter (\<lambda>i. level i < lv) st = st"
      by (auto simp: filter_empty_conv filter_id_conv)
    then show ?thesis using False by simp
  qed
qed

lemma render_item_sorted:
  assumes "sorted_wrt (>) (map level st)"
  shows "render_item item st =
           (item # filter (\<lambda>i. level i < level item) st,
            concat (map finalize_calls (filter (\<lambda>i. level item \<le> level i) st)) @ open_calls item)"
  using takeWhile_filter_sorted[OF assms, of "level item"] by (simp add: render_item_char)

text \<open>
  For the list that \<^verbatim>\<open>Render\<close> gets from the planner, for every tree: no item stays on
  the stack, every item is finalised exactly once, and the calls nest.
\<close>

lemma Render_finalizes_planned_items:
  "fst (render_items (plan view root_widget)) = []
   \<and> mset (finalized_items (snd (render_items (plan view root_widget))))
       = mset (plan view root_widget)
   \<and> replay (snd (render_items (plan view root_widget))) [] = Some []"
proof -
  have nonneg: "\<forall>item \<in> set (plan view root_widget). 0 \<le> level item"
    by (rule plan_levels_nonneg)
  show ?thesis
    using render_items_char[OF nonneg] render_items_mset[OF nonneg] replay_render_items[OF nonneg]
    by simp
qed

section \<open>Hit testing below hidden widgets\<close>

lemma preorder_below: "preorder w = w # below w"
  by (cases w) (simp add: below_def)

lemma below_trans:
  assumes "n \<in> set (preorder k)" and "d \<in> set (below n)"
  shows "d \<in> set (below k)"
proof (cases "n = k")
  case True
  then show ?thesis using assms(2) by simp
next
  case False
  then obtain m where m: "m \<in> set (children k)" "n \<in> set (preorder m)"
    using assms(1) by (auto simp: preorder_below[of k] below_def)
  have "d \<in> set (preorder n)"
    using assms(2) by (simp add: preorder_below[of n])
  then have "d \<in> set (preorder m)"
    using m(2) preorder_trans by blast
  then show ?thesis
    using m(1) by (auto simp: below_def)
qed

lemma candidates_below: "c \<in> set (candidates w) \<Longrightarrow> c \<in> set (below w)"
proof (induction w arbitrary: c rule: candidates.induct)
  case (1 i hid x y w h s ev chs)
  have vis: "\<not> hid"
    using "1.prems" by (cases hid) simp_all
  then have "c \<in> set (concat (map (\<lambda>child. candidates child @ [child]) (rev chs)))"
    using "1.prems" by simp
  then obtain k where k: "k \<in> set chs" "c \<in> set (candidates k) \<or> c = k"
    by auto
  have "c \<in> set (preorder k)"
  proof (cases "c = k")
    case True
    then show ?thesis by (simp add: preorder_self)
  next
    case False
    then have "c \<in> set (candidates k)" using k(2) by simp
    moreover have "k \<in> set (rev chs)" using k(1) by simp
    ultimately have "c \<in> set (below k)"
      using "1.IH"[OF vis] by blast
    then show ?thesis by (simp add: preorder_below[of k])
  qed
  then show ?case
    using k(1) by (auto simp: below_def)
qed

text \<open>
  The part of C2 that holds: with distinct addresses, no widget below a hidden widget is
  a candidate of the walk, so none is asked and none becomes the responder.
\<close>

lemma below_hidden_never_candidate:
  "distinct (map wid (preorder w)) \<Longrightarrow> n \<in> set (preorder w) \<Longrightarrow> IsHidden n
   \<Longrightarrow> d \<in> set (below n) \<Longrightarrow> c \<in> set (candidates w) \<Longrightarrow> wid c \<noteq> wid d"
proof (induction w arbitrary: c rule: candidates.induct)
  case (1 i hid x y w h s ev chs)
  let ?w = "Widget i hid x y w h s ev chs"
  have vis: "\<not> hid"
    using "1.prems"(5) by (cases hid) simp_all
  then have "n \<noteq> ?w"
    using "1.prems"(3) by auto
  then obtain k where k: "k \<in> set chs" "n \<in> set (preorder k)"
    using "1.prems"(2) by auto
  have dk: "d \<in> set (below k)"
    using k(2) "1.prems"(4) by (rule below_trans)
  have dist_ch: "distinct (map wid (concat (map preorder chs)))"
    using "1.prems"(1) by auto
  have dist_k: "distinct (map wid (preorder k))"
    using dist_ch k(1) by (induction chs) auto
  have "c \<in> set (concat (map (\<lambda>child. candidates child @ [child]) (rev chs)))"
    using "1.prems"(5) vis by simp
  then obtain k' where k': "k' \<in> set chs" "c \<in> set (candidates k') \<or> c = k'"
    by auto
  have krev: "k \<in> set (rev chs)" using k(1) by simp
  show ?case
  proof (cases "k' = k")
    case True
    from k'(2) show ?thesis
    proof
      assume "c \<in> set (candidates k')"
      then have "c \<in> set (candidates k)"
        using True by simp
      then show ?thesis
        by (rule "1.IH"[OF vis krev dist_k k(2) "1.prems"(3,4)])
    next
      assume "c = k'"
      then have "c = k" using True by simp
      moreover have "distinct (map wid (k # below k))"
        using dist_k by (simp only: preorder_below[of k])
      then have "wid k \<notin> wid ` set (below k)"
        by simp
      ultimately show ?thesis using dk by auto
    qed
  next
    case False
    have "c \<in> set (preorder k')"
      using k'(2) candidates_below[of c k'] by (auto simp: preorder_below[of k'])
    moreover have "d \<in> set (preorder k)"
      using dk by (simp add: preorder_below[of k])
    ultimately show ?thesis
      by (rule distinct_concat_disjoint[OF dist_ch k'(1) k(1) False])
  qed
qed

lemma below_hidden_never_responder:
  assumes "distinct (map wid (preorder root_widget))" "n \<in> set (preorder root_widget)"
    "IsHidden n" "d \<in> set (below n)"
    "ShouldHandleEvent_root location root_widget r = (True, Some c)"
  shows "wid c \<noteq> wid d"
proof -
  have "find (\<lambda>c. Widget_ShouldHandleEvent c location) (candidates root_widget) = Some c"
    using assms(5)
    by (simp add: ShouldHandleEvent_root_def responder_char(1) split: option.splits)
  then have "c \<in> set (candidates root_widget)"
    by (rule find_in_set[THEN conjunct1])
  then show ?thesis
    using below_hidden_never_candidate[OF assms(1-4)] by blast
qed

section \<open>Linear trees\<close>

text \<open>
  In a linear tree the levels of the planned items increase strictly, so \<^verbatim>\<open>Render\<close>
  calls \<^verbatim>\<open>WidgetDidRender\<close> in the reverse order of the items: deepest first.
\<close>

lemma linear_tree_levels_increase:
  "linear_tree w \<Longrightarrow> sorted_wrt (<) (map level (PopulateWidgetList view lv sc w p))"
proof (induction view lv sc w p rule: PopulateWidgetList.induct)
  case (1 view lv scale_in i hid x y w h s ev chs parent)
  let ?w = "Widget i hid x y w h s ev chs"
  show ?case
  proof (cases "item_geometry view scale_in ?w parent")
    case None
    then show ?thesis by simp
  next
    case (Some g)
    let ?item = "new_item lv ?w parent g"
    have len: "length chs \<le> 1"
      using "1.prems" by (simp add: linear_tree_def)
    show ?thesis
    proof (cases chs)
      case Nil
      then show ?thesis using Some by (simp add: Let_def)
    next
      case (Cons c rest)
      then have chs: "chs = [c]" using len by simp
      have "linear_tree c"
        using "1.prems" chs by (simp add: linear_tree_def)
      then have sorted: "sorted_wrt (<) (map level
                  (PopulateWidgetList view (lv + 1) (scale_in * s) c (Some ?item)))"
        using "1.IH"[OF Some refl refl, of c] chs by simp
      have "\<forall>it \<in> set (PopulateWidgetList view (lv + 1) (scale_in * s) c (Some ?item)).
              lv < level it"
        using planner_levels[of _ view "lv + 1" "scale_in * s" c "Some ?item"] by force
      then show ?thesis
        using Some chs sorted by (simp add: Let_def)
    qed
  qed
qed

lemma linear_tree_did_render_reverse:
  assumes "linear_tree root_widget"
  shows "did_render_order (snd (render_items (plan view root_widget)))
           = rev (map widget (plan view root_widget))"
proof -
  have "sorted_wrt (<) (map level (plan view root_widget))"
    using assms by (simp add: plan_def linear_tree_levels_increase)
  then show ?thesis
    using plan_levels_nonneg[of view root_widget] by (simp add: increasing_levels_reverse)
qed

section \<open>The order of finalisation in a tree\<close>

lemma distinct_concat_apart:
  assumes "distinct (map f (concat (map g (xs @ y # zs))))"
    and "x \<in> set xs \<union> set zs" and "u \<in> set (g x)" and "v \<in> set (g y)"
  shows "f u \<noteq> f v"
proof -
  let ?A = "concat (map g xs)" and ?C = "concat (map g zs)"
  have d: "distinct (map f ?A @ map f (g y) @ map f ?C)"
    using assms(1) by simp
  have outer: "distinct (map f ?A) \<and> distinct (map f (g y) @ map f ?C)
      \<and> set (map f ?A) \<inter> set (map f (g y) @ map f ?C) = {}"
    using d by (rule distinct_append[THEN iffD1])
  have inner: "distinct (map f (g y)) \<and> distinct (map f ?C)
      \<and> set (map f (g y)) \<inter> set (map f ?C) = {}"
    using outer[THEN conjunct2, THEN conjunct1] by (rule distinct_append[THEN iffD1])
  note a_bc = outer[THEN conjunct2, THEN conjunct2, unfolded disjoint_iff]
  note b_c = inner[THEN conjunct2, THEN conjunct2, unfolded disjoint_iff]
  have fv: "f v \<in> set (map f (g y))"
    using assms(4) by simp
  from assms(2) show ?thesis
  proof
    assume "x \<in> set xs"
    then have "u \<in> set ?A" using assms(3) by auto
    then have "f u \<in> set (map f ?A)" by simp
    then have "f u \<notin> set (map f (g y) @ map f ?C)"
      using a_bc by blast
    then have "f u \<notin> set (map f (g y))" by simp
    then show ?thesis using fv by auto
  next
    assume "x \<in> set zs"
    then have "u \<in> set ?C" using assms(3) by auto
    then have "f u \<in> set (map f ?C)" by simp
    then have "f u \<notin> set (map f (g y))"
      using b_c by blast
    then show ?thesis using fv by auto
  qed
qed

text \<open>
  The planner's list around an item: the item is followed by the items the same call
  creates for the nodes below its node, and no other item of the list belongs to its
  node or to a node below it.
\<close>

lemma planner_decompose_apart:
  "distinct (map wid (preorder w)) \<Longrightarrow> item \<in> set (PopulateWidgetList view lv sc w p) \<Longrightarrow>
   \<exists>pre post sub lv' sc' p'.
     PopulateWidgetList view lv sc w p = pre @ (item # sub) @ post
     \<and> PopulateWidgetList view lv' sc' (widget item) p' = item # sub
     \<and> (\<forall>b \<in> set pre \<union> set post. \<forall>n \<in> set (preorder (widget item)).
           wid (widget b) \<noteq> wid n)"
proof (induction view lv sc w p rule: PopulateWidgetList.induct)
  case (1 view lv scale_in i hid x y w h s ev chs parent)
  let ?w = "Widget i hid x y w h s ev chs"
  from "1.prems"(2) show ?case
  proof (cases rule: planner_cases)
    case (1 g)
    let ?item = "new_item lv ?w parent g"
    let ?f = "\<lambda>c. PopulateWidgetList view (lv + 1) (scale_in * s) c (Some ?item)"
    have whole: "PopulateWidgetList view lv scale_in ?w parent = ?item # concat (map ?f chs)"
      using 1(1) by (simp add: Let_def)
    from 1(2) show ?thesis
    proof
      assume eq: "item = ?item"
      have "PopulateWidgetList view lv scale_in ?w parent = [] @ (item # concat (map ?f chs)) @ []"
        using whole eq by simp
      moreover have "PopulateWidgetList view lv scale_in (widget item) parent
                       = item # concat (map ?f chs)"
        using whole eq by simp
      moreover have "\<forall>b \<in> set [] \<union> set []. \<forall>n \<in> set (preorder (widget item)).
           wid (widget b) \<noteq> wid n"
        by simp
      ultimately show ?thesis by blast
    next
      assume "\<exists>c \<in> set chs. item \<in> set (?f c)"
      then obtain c where c: "c \<in> set chs" "item \<in> set (?f c)"
        by blast
      have dist_ch: "distinct (map wid (concat (map preorder chs)))"
        and root_fresh: "i \<notin> wid ` set (concat (map preorder chs))"
        using "1.prems"(1) by auto
      have dist_c: "distinct (map wid (preorder c))"
        using dist_ch c(1) by (induction chs) auto
      obtain pre post sub lv' sc' p' where
        dec: "?f c = pre @ (item # sub) @ post"
        and own: "PopulateWidgetList view lv' sc' (widget item) p' = item # sub"
        and apart: "\<forall>b \<in> set pre \<union> set post. \<forall>n \<in> set (preorder (widget item)).
           wid (widget b) \<noteq> wid n"
        using "1.IH"[OF 1(1) refl refl c(1) dist_c c(2)] by blast
      have item_in: "widget item \<in> set (preorder c)"
        using c(2) by (rule planner_widgets)
      have inside: "n \<in> set (preorder c)" if "n \<in> set (preorder (widget item))" for n
        using item_in that by (rule preorder_trans)
      obtain cs1 cs2 where split: "chs = cs1 @ c # cs2"
        using c(1) by (meson split_list)
      have others: "wid (widget b) \<noteq> wid n"
        if b: "b \<in> set (concat (map ?f cs1)) \<union> set (concat (map ?f cs2))"
          and n: "n \<in> set (preorder (widget item))" for b n
      proof -
        obtain c' where c': "c' \<in> set cs1 \<union> set cs2" "b \<in> set (?f c')"
          using b by auto
        have "widget b \<in> set (preorder c')"
          using c'(2) by (rule planner_widgets)
        then show ?thesis
          using distinct_concat_apart[OF dist_ch[unfolded split] c'(1) _ inside[OF n]] by blast
      qed
      have top: "wid (widget ?item) \<noteq> wid n" if n: "n \<in> set (preorder (widget item))" for n
      proof -
        have "n \<in> set (concat (map preorder chs))"
          using inside[OF n] c(1) by auto
        then show ?thesis using root_fresh by (auto simp: image_iff)
      qed
      have "PopulateWidgetList view lv scale_in ?w parent
              = (?item # concat (map ?f cs1) @ pre) @ (item # sub) @ (post @ concat (map ?f cs2))"
        using whole dec by (simp add: split)
      moreover have "\<forall>b \<in> set (?item # concat (map ?f cs1) @ pre) \<union> set (post @ concat (map ?f cs2)).
            \<forall>n \<in> set (preorder (widget item)). wid (widget b) \<noteq> wid n"
      proof (intro ballI)
        fix b n
        assume b: "b \<in> set (?item # concat (map ?f cs1) @ pre) \<union> set (post @ concat (map ?f cs2))"
          and n: "n \<in> set (preorder (widget item))"
        from b consider "b = ?item"
          | "b \<in> set (concat (map ?f cs1)) \<union> set (concat (map ?f cs2))"
          | "b \<in> set pre \<union> set post"
          by auto
        then show "wid (widget b) \<noteq> wid n"
        proof cases
          case 1
          then show ?thesis using top[OF n] by simp
        next
          case 2
          then show ?thesis using others[OF _ n] by blast
        next
          case 3
          then show ?thesis using apart n by blast
        qed
      qed
      ultimately show ?thesis using own by blast
    qed
  qed
qed

text \<open>
  For every tree, the item of a node is finalised after the items of the nodes below it.
\<close>

lemma Render_descendants_first:
  assumes dist: "distinct (map wid (preorder root_widget))"
    and a: "a \<in> set (plan view root_widget)" and b: "b \<in> set (plan view root_widget)"
    and desc: "widget b \<in> set (below (widget a))"
  shows "\<exists>xs ys. finalized_items (snd (render_items (plan view root_widget))) = xs @ a # ys
           \<and> b \<in> set xs"
proof -
  obtain pre post sub lv sc p where
    dec: "plan view root_widget = pre @ (a # sub) @ post"
    and own: "PopulateWidgetList view lv sc (widget a) p = a # sub"
    and apart: "\<forall>b \<in> set pre \<union> set post. \<forall>n \<in> set (preorder (widget a)).
           wid (widget b) \<noteq> wid n"
    using planner_decompose_apart[OF dist[unfolded plan_def], of a view 0 1 None] a
    unfolding plan_def by blast
  have "widget a \<in> set (preorder root_widget)"
    using a unfolding plan_def by (rule planner_widgets)
  then have "distinct (map wid (preorder (widget a)))"
    using dist
  proof (induction root_widget rule: preorder.induct)
    case (1 i hid x y w h s ev chs)
    show ?case
    proof (cases "widget a = Widget i hid x y w h s ev chs")
      case True
      then show ?thesis using "1.prems"(2) by simp
    next
      case False
      then obtain c where c: "c \<in> set chs" "widget a \<in> set (preorder c)"
        using "1.prems"(1) by auto
      have "distinct (map wid (concat (map preorder chs)))"
        using "1.prems"(2) by simp
      then have "distinct (map wid (preorder c))"
        using c(1) by (induction chs) auto
      then show ?thesis using "1.IH"[OF c] by blast
    qed
  qed
  then have self: "wid (widget a) \<notin> wid ` set (below (widget a))"
    by (simp add: preorder_below[of "widget a"])
  have in_pre: "widget b \<in> set (preorder (widget a))"
    using desc by (simp add: preorder_below[of "widget a"])
  have "b \<notin> set pre \<union> set post"
    using apart in_pre by blast
  moreover have "b \<noteq> a"
    using self desc by auto
  ultimately have "b \<in> set sub"
    using b dec by auto
  have deep: "\<forall>s \<in> set sub. level a < level s"
    using planner_block[OF own] by blast
  have nonneg: "\<forall>item \<in> set (plan view root_widget). 0 \<le> level item"
    by (rule plan_levels_nonneg)
  obtain xs ys where
    "finalized_items (snd (render_loop (pre @ a # sub @ post) []))
       @ fst (render_loop (pre @ a # sub @ post) []) = xs @ a # ys"
    and sub: "mset sub \<subseteq># mset xs"
    using descendants_finalized_first[OF deep, of pre post] by blast
  then have "finalized_items (snd (render_items (plan view root_widget))) = xs @ a # ys"
    using render_items_finalized[OF nonneg] dec by simp
  moreover have "b \<in> set xs"
    using \<open>b \<in> set sub\<close> sub by (meson mset_subset_eqD in_multiset_in_set)
  ultimately show ?thesis by blast
qed

text \<open>
  The \<^verbatim>\<open>WidgetDidRender\<close> calls of a whole \<^verbatim>\<open>Render\<close> are those of its executor loop.
\<close>

lemma did_render_order_passes:
  "did_render_order (WidgetViewWillRender rw w) = []"
  "did_render_order (WidgetViewDidRender rw w) = []"
proof -
  have will: "did_render_order (concat (map (will_render_calls rw) ns)) = []" for ns
    by (induction ns) (simp_all add: will_render_calls_def did_render_order_append)
  have did: "did_render_order (concat (map (did_render_calls rw) ns)) = []" for ns
    by (induction ns) (simp_all add: did_render_calls_def did_render_order_append)
  show "did_render_order (WidgetViewWillRender rw w) = []"
    by (simp only: WidgetViewWillRender_preorder will)
  show "did_render_order (WidgetViewDidRender rw w) = []"
    by (simp only: WidgetViewDidRender_preorder did)
qed

lemma did_render_order_framebuffers:
  "did_render_order (map (\<lambda>item. Widget_RenderDefaultFramebuffer (widget item)) L) = []"
  by (induction L) simp_all

lemma Render_did_render_order:
  "did_render_order (Render view has_context kScreenScaleFactor root_widget)
     = did_render_order (snd (render_items (plan view root_widget)))"
  by (simp add: Render_def plan_def Let_def did_render_order_append did_render_order_passes
      did_render_order_framebuffers)

text \<open>
  C5. For a list of items whose levels are not negative (levels are tree depths: the
  planner starts at 0), the executor leaves no item on the stack; every item of the list
  is finalised exactly once, by a \<^verbatim>\<open>WidgetDidRender\<close> call on its widget followed by the
  restore of its save point, and the trace has as many restores as saves; every
  \<^verbatim>\<open>WidgetDidRender\<close> call closes the widget opened last among those still open; the
  levels on the stack decrease strictly from the top, and one iteration finalises exactly
  the stacked items whose level is at least the level of the incoming item before it
  pushes that item. An item is finalised after all items of a block of greater levels
  that follows it, and for a list of strictly increasing levels, such as the one of a
  linear tree, the did-render calls come in the reverse order of the list. For every
  tree, the did-render call of a rendered node comes after the did-render calls of the
  rendered nodes below it.
\<close>

theorem render_executor_finalizes:
  "((\<forall>i \<in> set L. 0 \<le> level i) \<longrightarrow>
      fst (render_items L) = []
    \<and> mset (finalized_items (snd (render_items L))) = mset L
    \<and> did_render_order (snd (render_items L)) = map widget (finalized_items (snd (render_items L)))
    \<and> count_list (snd (render_items L)) nvgRestore = count_list (snd (render_items L)) nvgSave
    \<and> replay (snd (render_items L)) [] = Some []
    \<and> sorted_wrt (>) (map level (fst (render_loop L [])))
    \<and> (\<forall>item st. sorted_wrt (>) (map level st) \<longrightarrow>
          render_item item st =
            (item # filter (\<lambda>i. level i < level item) st,
             concat (map finalize_calls (filter (\<lambda>i. level item \<le> level i) st))
             @ open_calls item))
    \<and> (\<forall>pre a sub post. L = pre @ a # sub @ post \<and> (\<forall>s \<in> set sub. level a < level s) \<longrightarrow>
          (\<exists>xs ys. finalized_items (snd (render_items L)) = xs @ a # ys \<and> mset sub \<subseteq># mset xs))
    \<and> (sorted_wrt (<) (map level L) \<longrightarrow>
          did_render_order (snd (render_items L)) = rev (map widget L)))
   \<and> (distinct (map wid (preorder root_widget))
        \<and> a \<in> set (plan view root_widget) \<and> b \<in> set (plan view root_widget)
        \<and> widget b \<in> set (below (widget a)) \<longrightarrow>
        (\<exists>xs ys. did_render_order (snd (render_items (plan view root_widget)))
                   = xs @ widget a # ys \<and> widget b \<in> set xs))"
proof (intro conjI allI impI)
  assume assms: "\<forall>i \<in> set L. 0 \<le> level i"
  show "fst (render_items L) = []"
    by (simp add: render_items_char[OF assms])
  show "mset (finalized_items (snd (render_items L))) = mset L"
    by (rule render_items_mset[OF assms])
  show "did_render_order (snd (render_items L)) = map widget (finalized_items (snd (render_items L)))"
    by (rule render_items_did_render[OF assms])
  show "count_list (snd (render_items L)) nvgRestore = count_list (snd (render_items L)) nvgSave"
    by (simp only: save_points_balanced[OF assms])
  show "replay (snd (render_items L)) [] = Some []"
    by (rule replay_render_items[OF assms])
  show "sorted_wrt (>) (map level (fst (render_loop L [])))"
    by (rule stack_stays_sorted) simp
  show "render_item item st =
            (item # filter (\<lambda>i. level i < level item) st,
             concat (map finalize_calls (filter (\<lambda>i. level item \<le> level i) st))
             @ open_calls item)"
    if "sorted_wrt (>) (map level st)" for item st
    using that by (rule render_item_sorted)
  show "\<exists>xs ys. finalized_items (snd (render_items L)) = xs @ a # ys \<and> mset sub \<subseteq># mset xs"
    if "L = pre @ a # sub @ post \<and> (\<forall>s \<in> set sub. level a < level s)" for pre a sub post
  proof -
    from that have L: "L = pre @ a # sub @ post" and deep: "\<forall>s \<in> set sub. level a < level s"
      by blast+
    obtain xs ys where "finalized_items (snd (render_loop L [])) @ fst (render_loop L []) = xs @ a # ys"
      and "mset sub \<subseteq># mset xs"
      using descendants_finalized_first[OF deep, of pre post] L by blast
    then show ?thesis
      using render_items_finalized[OF assms] by auto
  qed
  show "did_render_order (snd (render_items L)) = rev (map widget L)"
    if "sorted_wrt (<) (map level L)"
    using that by (rule increasing_levels_reverse[OF assms])
next
  assume tree: "distinct (map wid (preorder root_widget))
        \<and> a \<in> set (plan view root_widget) \<and> b \<in> set (plan view root_widget)
        \<and> widget b \<in> set (below (widget a))"
  then obtain xs ys where
    fin: "finalized_items (snd (render_items (plan view root_widget))) = xs @ a # ys"
    and b: "b \<in> set xs"
    using Render_descendants_first[of root_widget a view b] by blast
  have "did_render_order (snd (render_items (plan view root_widget)))
          = map widget (finalized_items (snd (render_items (plan view root_widget))))"
    by (rule render_items_did_render[OF plan_levels_nonneg])
  then have "did_render_order (snd (render_items (plan view root_widget)))
          = map widget xs @ widget a # map widget ys"
    by (simp add: fin)
  moreover have "widget b \<in> set (map widget xs)"
    using b by simp
  ultimately show "\<exists>xs ys. did_render_order (snd (render_items (plan view root_widget)))
                   = xs @ widget a # ys \<and> widget b \<in> set xs"
    by blast
qed

theorem render_executor_finalizes_witness:
  "map level (plan view800 chain_A) = [0, 1, 2]
   \<and> map widget (plan view800 chain_A) = [chain_A, chain_B, chain_C]
   \<and> distinct (map wid (preorder chain_A))
   \<and> chain_C \<in> set (below chain_A)
   \<and> fst (render_items (plan view800 chain_A)) = []
   \<and> did_render_order (snd (render_items (plan view800 chain_A))) = [chain_C, chain_B, chain_A]
   \<and> (\<exists>xs ys. did_render_order (snd (render_items (plan view800 chain_A))) = xs @ chain_A # ys
          \<and> chain_C \<in> set xs)"
proof -
  let ?L = "plan view800 chain_A"
  have lv: "map level ?L = [0, 1, 2]"
    by (simp add: plan_def chain_A_def chain_B_def chain_C_def view800_def item_geometry_def
        clip_to_parent_def new_item_def Let_def)
  have wd: "map widget ?L = [chain_A, chain_B, chain_C]"
    by (simp add: plan_def chain_A_def chain_B_def chain_C_def view800_def item_geometry_def
        clip_to_parent_def new_item_def Let_def)
  have first: "widget (hd ?L) = chain_A"
    by (simp add: plan_def chain_A_def chain_B_def chain_C_def view800_def item_geometry_def
        clip_to_parent_def new_item_def Let_def)
  have final: "widget (last ?L) = chain_C"
    by (simp add: plan_def chain_A_def chain_B_def chain_C_def view800_def item_geometry_def
        clip_to_parent_def new_item_def Let_def)
  have ne: "?L \<noteq> []"
    using lv by auto
  have dist: "distinct (map wid (preorder chain_A))"
    by (simp add: chain_A_def chain_B_def chain_C_def)
  have desc: "chain_C \<in> set (below chain_A)"
    by (simp add: below_def chain_A_def chain_B_def chain_C_def)
  have "\<forall>l \<in> set (map level ?L). 0 \<le> l"
    by (simp only: lv) simp
  then have nonneg: "\<forall>i \<in> set ?L. 0 \<le> level i"
    by simp
  have incr: "sorted_wrt (<) (map level ?L)"
    by (simp only: lv) simp
  note both = render_executor_finalizes[of ?L chain_A "hd ?L" view800 "last ?L"]
  note all = both[THEN conjunct1, THEN mp, OF nonneg]
  have closed: "fst (render_items ?L) = []"
    using all by (rule conjunct1)
  have "sorted_wrt (<) (map level ?L) \<longrightarrow>
          did_render_order (snd (render_items ?L)) = rev (map widget ?L)"
    using all by (elim conjE)
  then have "did_render_order (snd (render_items ?L)) = rev (map widget ?L)"
    using incr by (rule mp)
  then have order: "did_render_order (snd (render_items ?L)) = [chain_C, chain_B, chain_A]"
    by (simp only: wd rev.simps append.simps)
  have "distinct (map wid (preorder chain_A))
        \<and> hd ?L \<in> set ?L \<and> last ?L \<in> set ?L
        \<and> widget (last ?L) \<in> set (below (widget (hd ?L)))"
    using dist desc ne by (simp add: first final)
  then have "\<exists>xs ys. did_render_order (snd (render_items ?L)) = xs @ widget (hd ?L) # ys
              \<and> widget (last ?L) \<in> set xs"
    by (rule both[THEN conjunct2, THEN mp])
  then have before: "\<exists>xs ys. did_render_order (snd (render_items ?L)) = xs @ chain_A # ys
              \<and> chain_C \<in> set xs"
    by (simp only: first final)
  show ?thesis
    using lv wd dist desc closed order before by (intro conjI)
qed

end
